theory Spec2Isabelle
  imports Main "HOL-Library.Word" "HOL-Library.Monad_Syntax"
begin

section \<open>The LRU cache of cache.c\<close>

subsection \<open>Data model (cache.h)\<close>

text \<open>
  \<open>size_t\<close> is a 64-bit unsigned integer: \<open>+\<close> and \<open>-\<close> wrap around, \<open><\<close> compares
  unsigned. A \<open>cache_block *\<close> is an address or \<open>NULL\<close> (\<open>None\<close>). The malloc'ed
  blocks live in an explicit store; \<open>Malloc\<close> hands out the address \<open>brk\<close> and moves it on,
  \<open>Free\<close> removes the address from the store. Reading or writing through \<open>NULL\<close> or
  through a freed address has no defined result in C: here the operation yields \<open>None\<close>.

  The object and the key of a block are modelled by their contents (the bytes of
  \<open>cache_obj\<close>, the C string \<open>cache_uri_key\<close>), since the cache never shares them.
  \<open>readReferenceCnt\<close> is a C \<open>int\<close>: a 32-bit word, read as a signed number by \<open>sint\<close>.
  \<open>++\<close> and \<open>--\<close> on it are the two's complement operations of the machine. C leaves a step
  out of the range of \<open>int\<close> undefined: the results below that speak of the value of a
  count are at counts for which the step stays in that range.

  Every operation of cache.c runs under the one mutex of the cache. One operation at a
  time is modelled: the lock and unlock calls have no counterpart here.
\<close>

type_synonym size_t = "64 word"
type_synonym c_int = "32 word"
type_synonym addr = nat

definition MAX_CACHE_SIZE :: size_t where
  "MAX_CACHE_SIZE = 1024 * 1024"

definition MAX_OBJECT_SIZE :: size_t where
  "MAX_OBJECT_SIZE = 100 * 1024"

record cache_block =
  cache_obj :: string
  cache_obj_size :: size_t
  cache_uri_key :: string
  readReferenceCnt :: c_int
  nextBlock :: "addr option"
  previousBlock :: "addr option"

record Cache =
  cacheBlockHead :: "addr option"
  cacheBlockTail :: "addr option"
  cache_size :: size_t
  blocks :: "addr \<rightharpoonup> cache_block"
  brk :: addr

subsection \<open>Pointer access\<close>

definition deref :: "Cache \<Rightarrow> addr option \<Rightarrow> cache_block option" where
  "deref c p = (case p of None \<Rightarrow> None | Some a \<Rightarrow> blocks c a)"

definition pstore :: "addr option \<Rightarrow> (cache_block \<Rightarrow> cache_block) \<Rightarrow> Cache \<Rightarrow> Cache option" where
  "pstore p f c =
     (case p of
        None \<Rightarrow> None
      | Some a \<Rightarrow>
          (case blocks c a of
             None \<Rightarrow> None
           | Some b \<Rightarrow> Some (c\<lparr>blocks := (blocks c)(a \<mapsto> f b)\<rparr>)))"

text \<open>
  The fields of a fresh block are indeterminate in C. \<open>cache_uri\<close>, the only caller,
  writes every field before it returns, so the initial values chosen here never show.
\<close>

definition Malloc_block :: "Cache \<Rightarrow> addr \<times> Cache" where
  "Malloc_block c =
     (brk c,
      c\<lparr>blocks := (blocks c)(brk c \<mapsto>
           \<lparr>cache_obj = [], cache_obj_size = 0, cache_uri_key = [],
            readReferenceCnt = 0, nextBlock = None, previousBlock = None\<rparr>),
        brk := Suc (brk c)\<rparr>)"

definition Free_block :: "addr \<Rightarrow> Cache \<Rightarrow> Cache" where
  "Free_block a c = c\<lparr>blocks := (blocks c)(a := None)\<rparr>"

subsection \<open>cache_init\<close>

text \<open>\<open>cache_init\<close> sets the three fields of the global; the heap is left as it is.\<close>

definition cache_init :: "Cache \<Rightarrow> Cache" where
  "cache_init c = c\<lparr>cache_size := 0, cacheBlockHead := None, cacheBlockTail := None\<rparr>"

subsection \<open>cache_find\<close>

text \<open>
  The five statements that close both relinking branches of \<open>cache_find\<close>:
  \<open>tempCachePtr = cache.cacheBlockTail; cache.cacheBlockTail = cacheLinePtr;
  tempCachePtr->nextBlock = cacheLinePtr; cacheLinePtr->nextBlock = NULL;
  cacheLinePtr->previousBlock = tempCachePtr;\<close>
\<close>

definition relink_at_tail :: "addr \<Rightarrow> Cache \<Rightarrow> Cache option" where
  "relink_at_tail p c0 = do {
     let tempCachePtr = cacheBlockTail c0;
     let c = c0\<lparr>cacheBlockTail := Some p\<rparr>;
     c \<leftarrow> pstore tempCachePtr (\<lambda>t. t\<lparr>nextBlock := Some p\<rparr>) c;
     c \<leftarrow> pstore (Some p) (\<lambda>t. t\<lparr>nextBlock := None\<rparr>) c;
     pstore (Some p) (\<lambda>t. t\<lparr>previousBlock := tempCachePtr\<rparr>) c
   }"

text \<open>
  The body of the \<open>if (strcmp(url, key) == 0)\<close> branch, for the block at
  \<open>cacheLinePtr\<close>: the count goes up, then one of the four list cases applies, in the
  order of the source (hit at the head, hit at the tail, hit in the middle, only block).
\<close>

definition cache_hit :: "addr \<Rightarrow> Cache \<Rightarrow> Cache option" where
  "cache_hit p c0 = do {
     c \<leftarrow> pstore (Some p) (\<lambda>b. b\<lparr>readReferenceCnt := readReferenceCnt b + 1\<rparr>) c0;
     b \<leftarrow> deref c (Some p);
     if cacheBlockHead c = Some p \<and> nextBlock b \<noteq> None then do {
       let c = c\<lparr>cacheBlockHead := nextBlock b\<rparr>;
       c \<leftarrow> pstore (nextBlock b) (\<lambda>t. t\<lparr>previousBlock := None\<rparr>) c;
       relink_at_tail p c
     }
     else if cacheBlockTail c = Some p \<and> previousBlock b \<noteq> None then Some c
     else if previousBlock b \<noteq> None \<and> nextBlock b \<noteq> None then do {
       c \<leftarrow> pstore (nextBlock b) (\<lambda>t. t\<lparr>previousBlock := previousBlock b\<rparr>) c;
       b1 \<leftarrow> deref c (Some p);
       c \<leftarrow> pstore (previousBlock b1) (\<lambda>t. t\<lparr>nextBlock := nextBlock b1\<rparr>) c;
       relink_at_tail p c
     }
     else Some c
   }"

text \<open>
  The \<open>while (cacheLinePtr != NULL)\<close> loop. The result is the returned pointer
  (\<open>None\<close> for \<open>NULL\<close>, a miss) and the cache; the whole result is \<open>None\<close> when the
  walk never ends (a cyclic list) or goes through a freed block.
\<close>

partial_function (option) cache_find_loop ::
  "string \<Rightarrow> addr option \<Rightarrow> Cache \<Rightarrow> (addr option \<times> Cache) option" where
  "cache_find_loop url cacheLinePtr c =
     (case cacheLinePtr of
        None \<Rightarrow> Some (None, c)
      | Some p \<Rightarrow>
          (case blocks c p of
             None \<Rightarrow> None
           | Some b \<Rightarrow>
               if cache_uri_key b = url
               then map_option (Pair (Some p)) (cache_hit p c)
               else cache_find_loop url (nextBlock b) c))"

definition cache_find :: "string \<Rightarrow> Cache \<Rightarrow> (addr option \<times> Cache) option" where
  "cache_find url c = cache_find_loop url (cacheBlockHead c) c"

subsection \<open>cache_eviction\<close>

text \<open>
  One worker is modelled at a time: no other thread runs between \<open>unLockMutex\<close> and
  \<open>lockMutex\<close> of the busy wait, so at a head whose count is not zero the wait never
  ends and the loop has no result (\<open>None\<close>). \<open>cacheLinePtr\<close> is the head at the start of
  every iteration. The result carries \<open>sizeFreed\<close>, which decides the diagnostic.
\<close>

partial_function (option) cache_eviction_loop ::
  "size_t \<Rightarrow> size_t \<Rightarrow> Cache \<Rightarrow> (size_t \<times> Cache) option" where
  "cache_eviction_loop reqBufSize sizeFreed c =
     (case cacheBlockHead c of
        None \<Rightarrow> Some (sizeFreed, c)
      | Some p \<Rightarrow>
          if \<not> sizeFreed < reqBufSize then Some (sizeFreed, c)
          else
            (case blocks c p of
               None \<Rightarrow> None
             | Some b \<Rightarrow>
                 if readReferenceCnt b \<noteq> 0 then None
                 else
                   (case (if nextBlock b \<noteq> None
                          then pstore (nextBlock b) (\<lambda>t. t\<lparr>previousBlock := None\<rparr>)
                                 (c\<lparr>cacheBlockHead := nextBlock b\<rparr>)
                          else Some (c\<lparr>cacheBlockHead := None, cacheBlockTail := None\<rparr>)) of
                      None \<Rightarrow> None
                    | Some c1 \<Rightarrow>
                        cache_eviction_loop reqBufSize (sizeFreed + cache_obj_size b)
                          (Free_block p (c1\<lparr>cache_size := cache_size c1 - cache_obj_size b\<rparr>)))))"

definition cache_eviction :: "size_t \<Rightarrow> Cache \<Rightarrow> (size_t \<times> Cache) option" where
  "cache_eviction reqBufSize c = cache_eviction_loop reqBufSize 0 c"

subsection \<open>cache_uri\<close>

text \<open>
  \<open>memcpy(cacheLinePtr->cache_obj, buf, buffSize)\<close> copies the first \<open>buffSize\<close> bytes of
  \<open>buf\<close>; the caller's buffer holds at least that many.
\<close>

definition cache_link_tail :: "addr \<Rightarrow> Cache \<Rightarrow> Cache option" where
  "cache_link_tail p c =
     (if cacheBlockHead c = None \<and> cacheBlockTail c = None then do {
        let c = c\<lparr>cacheBlockTail := Some p\<rparr>;
        let c = c\<lparr>cacheBlockHead := cacheBlockTail c\<rparr>;
        c \<leftarrow> pstore (Some p) (\<lambda>t. t\<lparr>previousBlock := None\<rparr>) c;
        pstore (Some p) (\<lambda>t. t\<lparr>nextBlock := None\<rparr>) c
      } else do {
        let tempCacheLinePtr = cacheBlockTail c;
        let c = c\<lparr>cacheBlockTail := Some p\<rparr>;
        c \<leftarrow> pstore (Some p) (\<lambda>t. t\<lparr>previousBlock := tempCacheLinePtr\<rparr>) c;
        c \<leftarrow> pstore tempCacheLinePtr (\<lambda>t. t\<lparr>nextBlock := Some p\<rparr>) c;
        pstore (Some p) (\<lambda>t. t\<lparr>nextBlock := None\<rparr>) c
      })"

definition cache_uri :: "string \<Rightarrow> string \<Rightarrow> size_t \<Rightarrow> Cache \<Rightarrow> Cache option" where
  "cache_uri uri buf buffSize c0 = do {
     let updatedtotalCacheSize = cache_size c0 + buffSize;
     c \<leftarrow> (if updatedtotalCacheSize > MAX_CACHE_SIZE
           then map_option snd (cache_eviction ((cache_size c0 + buffSize) - MAX_CACHE_SIZE) c0)
           else Some c0);
     let (p, c) = Malloc_block c;
     c \<leftarrow> cache_link_tail p c;
     c \<leftarrow> pstore (Some p) (\<lambda>t. t\<lparr>cache_obj := take (unat buffSize) buf\<rparr>) c;
     c \<leftarrow> pstore (Some p) (\<lambda>t. t\<lparr>cache_obj_size := buffSize\<rparr>) c;
     c \<leftarrow> pstore (Some p) (\<lambda>t. t\<lparr>cache_uri_key := uri\<rparr>) c;
     c \<leftarrow> pstore (Some p) (\<lambda>t. t\<lparr>readReferenceCnt := 0\<rparr>) c;
     Some (c\<lparr>cache_size := cache_size c + buffSize\<rparr>)
   }"

section \<open>The cache as a sequence of entries\<close>

text \<open>
  The view of the data model of the specification: an entry is the key, the body, the
  size and the pin count of one block; the cache is the sequence of its entries from the
  head (least recently used) to the tail, each with the address of its block.
\<close>

record entry =
  entry_uri :: string
  entry_body :: string
  entry_size :: size_t
  pin_count :: c_int

definition entry_of :: "cache_block \<Rightarrow> entry" where
  "entry_of b = \<lparr>entry_uri = cache_uri_key b, entry_body = cache_obj b,
                 entry_size = cache_obj_size b, pin_count = readReferenceCnt b\<rparr>"

text \<open>
  \<open>dseg h prev p es lst q\<close>: starting at pointer \<open>p\<close>, the \<open>nextBlock\<close> fields lead through
  exactly the blocks of \<open>es\<close> and then to \<open>q\<close>; every \<open>previousBlock\<close> field points one
  step back (\<open>prev\<close> for the first block), and \<open>lst\<close> is the last block (\<open>prev\<close> when
  \<open>es\<close> is empty).
\<close>

fun dseg :: "(addr \<rightharpoonup> cache_block) \<Rightarrow> addr option \<Rightarrow> addr option \<Rightarrow> (addr \<times> entry) list
               \<Rightarrow> addr option \<Rightarrow> addr option \<Rightarrow> bool" where
  "dseg h prev p [] lst q = (p = q \<and> lst = prev)"
| "dseg h prev p (x # es) lst q =
     (p = Some (fst x) \<and>
      (case h (fst x) of
         None \<Rightarrow> False
       | Some b \<Rightarrow> entry_of b = snd x \<and> previousBlock b = prev \<and>
                   dseg h (Some (fst x)) (nextBlock b) es lst q))"

text \<open>
  A well-formed cache: head and tail delimit a doubly linked list of distinct blocks, and
  every allocated address is below \<open>brk\<close>.
\<close>

definition cache_list :: "Cache \<Rightarrow> (addr \<times> entry) list \<Rightarrow> bool" where
  "cache_list c es =
     (dseg (blocks c) None (cacheBlockHead c) es (cacheBlockTail c) None \<and>
      distinct (map fst es) \<and> (\<forall>a \<in> dom (blocks c). a < brk c))"

definition keys :: "(addr \<times> entry) list \<Rightarrow> string list" where
  "keys es = map (entry_uri \<circ> snd) es"

definition total_bytes :: "(addr \<times> entry) list \<Rightarrow> nat" where
  "total_bytes es = sum_list (map (unat \<circ> entry_size \<circ> snd) es)"

text \<open>The entries read off the heap by following \<open>nextBlock\<close> from the head.\<close>

partial_function (option) walk_blocks ::
  "(addr \<rightharpoonup> cache_block) \<Rightarrow> addr option \<Rightarrow> (addr \<times> entry) list option" where
  "walk_blocks h p =
     (case p of
        None \<Rightarrow> Some []
      | Some a \<Rightarrow>
          (case h a of
             None \<Rightarrow> None
           | Some b \<Rightarrow>
               Option.bind (walk_blocks h (nextBlock b)) (\<lambda>es. Some ((a, entry_of b) # es))))"

definition cache_entries :: "Cache \<Rightarrow> (addr \<times> entry) list option" where
  "cache_entries c = walk_blocks (blocks c) (cacheBlockHead c)"

text \<open>
  The eviction loop on the sequence of entries, with the arithmetic of the source
  (\<open>size_t\<close>): \<open>None\<close> when the loop meets a pinned head while it still has to free.
\<close>

fun evict_list ::
  "size_t \<Rightarrow> size_t \<Rightarrow> (addr \<times> entry) list \<Rightarrow> (size_t \<times> (addr \<times> entry) list) option" where
  "evict_list req freed [] = Some (freed, [])"
| "evict_list req freed (x # es) =
     (if \<not> freed < req then Some (freed, x # es)
      else if pin_count (snd x) \<noteq> 0 then None
      else evict_list req (freed + entry_size (snd x)) es)"

text \<open>
  Eviction in the words of the specification: remove entries from the head until at
  least \<open>n\<close> bytes of size have been freed, or until the store is empty. \<open>n\<close> is what
  remains to be freed.
\<close>

fun spec_evict :: "nat \<Rightarrow> (addr \<times> entry) list \<Rightarrow> (addr \<times> entry) list" where
  "spec_evict n [] = []"
| "spec_evict n (x # es) =
     (if n = 0 then x # es else spec_evict (n - unat (entry_size (snd x))) es)"

section \<open>The proxy of proxy.c\<close>

subsection \<open>What csapp.h and csapp.c provide\<close>

text \<open>
  Modelled from the spec: \<open>csapp.h\<close> is not among the sources. The specification gives
  the line buffer size \<open>MAXLINE\<close> as 8 KiB, which is the value of \<open>csapp.h\<close>.
\<close>

definition MAXLINE :: nat where
  "MAXLINE = 8192"

text \<open>
  Modelled from the spec: \<open>csapp.h\<close> is not among the sources and the specification does
  not give \<open>MAXBUF\<close>; it is taken equal to \<open>MAXLINE\<close>, as in \<open>csapp.h\<close>.
\<close>

definition MAXBUF :: nat where
  "MAXBUF = 8192"

text \<open>
  What can go wrong below the level of return values: a copy that runs over the end of a
  fixed-size array (\<open>Buffer_overflow\<close>), and a cache operation that does not return
  (\<open>Cache_stuck\<close>: a wild pointer, a walk that never ends, or the busy wait of the
  eviction loop).
\<close>

datatype fault = Buffer_overflow | Cache_stuck

text \<open>
  A connection, seen from the writing side: \<open>sent\<close> is what has been written so far;
  \<open>room\<close> is how many more bytes the peer takes before the connection breaks (\<open>None\<close>: it
  never breaks).
\<close>

record conn =
  sent :: string
  room :: "nat option"

text \<open>
  Modelled from the spec: \<open>rio_writen\<close> (\<open>csapp.c\<close>) is not among the sources. The
  specification describes it as the whole-buffer writer: it writes exactly \<open>n\<close> bytes,
  restarting on partial progress, and returns negative on an unrecoverable error.
\<close>

definition rio_writen :: "conn \<Rightarrow> string \<Rightarrow> conn \<times> int" where
  "rio_writen fd usrbuf =
     (case room fd of
        None \<Rightarrow> (fd\<lparr>sent := sent fd @ usrbuf\<rparr>, int (length usrbuf))
      | Some r \<Rightarrow>
          if length usrbuf \<le> r
          then (fd\<lparr>sent := sent fd @ usrbuf, room := Some (r - length usrbuf)\<rparr>,
                int (length usrbuf))
          else (fd\<lparr>sent := sent fd @ take r usrbuf, room := Some 0\<rparr>, - 1))"

subsection \<open>C strings and the library calls on them\<close>

text \<open>A \<open>char\<close> array read as a C string ends before its first NUL.\<close>

definition c_str :: "string \<Rightarrow> string" where
  "c_str s = takeWhile (\<lambda>ch. ch \<noteq> CHR 0x00) s"

definition CRLF :: string where
  "CRLF = [CHR 0x0D, CHR 0x0A]"

text \<open>Decimal output of \<open>%zu\<close> and \<open>%d\<close>.\<close>

definition digit_char :: "nat \<Rightarrow> char" where
  "digit_char d = char_of (48 + d)"

fun show_nat :: "nat \<Rightarrow> string" where
  "show_nat n = (if n < 10 then [digit_char n] else show_nat (n div 10) @ [digit_char (n mod 10)])"

declare show_nat.simps [simp del]

definition show_int :: "int \<Rightarrow> string" where
  "show_int i = (if i < 0 then CHR ''-'' # show_nat (nat (- i)) else show_nat (nat i))"

definition isspace :: "char \<Rightarrow> bool" where
  "isspace ch = (ch \<in> set [CHR '' '', CHR 0x09, CHR 0x0A, CHR 0x0B, CHR 0x0C, CHR 0x0D])"

definition isdigit :: "char \<Rightarrow> bool" where
  "isdigit ch = ((48::nat) \<le> of_char ch \<and> of_char ch \<le> (57::nat))"

fun digits_val :: "int \<Rightarrow> string \<Rightarrow> int" where
  "digits_val acc [] = acc"
| "digits_val acc (ch # s) =
     (if isdigit ch then digits_val (10 * acc + (int (of_char ch) - 48)) s else acc)"

text \<open>
  \<open>strtol(s, NULL, 10)\<close>: leading white space, an optional sign, then the digits; a value
  out of the range of \<open>long\<close> (64 bits) is replaced by \<open>LONG_MIN\<close> or \<open>LONG_MAX\<close>.
  \<open>atoi(s)\<close> is \<open>(int) strtol(s, NULL, 10)\<close>: the conversion keeps the low 32 bits.
\<close>

definition LONG_MAX :: int where
  "LONG_MAX = 2 ^ 63 - 1"

definition LONG_MIN :: int where
  "LONG_MIN = - (2 ^ 63)"

definition strtol :: "string \<Rightarrow> int" where
  "strtol s =
     (case dropWhile isspace s of
        [] \<Rightarrow> 0
      | ch # r \<Rightarrow>
          if ch = CHR ''-'' then max LONG_MIN (- digits_val 0 r)
          else if ch = CHR ''+'' then min LONG_MAX (digits_val 0 r)
          else min LONG_MAX (digits_val 0 (ch # r)))"

definition atoi :: "string \<Rightarrow> c_int" where
  "atoi s = word_of_int (strtol s)"

text \<open>\<open>strstr hay needle\<close> is \<open>strstr(hay, needle) != NULL\<close>: a case-sensitive substring test.\<close>

fun is_prefix :: "string \<Rightarrow> string \<Rightarrow> bool" where
  "is_prefix [] s = True"
| "is_prefix (k # ks) [] = False"
| "is_prefix (k # ks) (ch # s) = (k = ch \<and> is_prefix ks s)"

fun strstr :: "string \<Rightarrow> string \<Rightarrow> bool" where
  "strstr [] needle = (needle = [])"
| "strstr (ch # s) needle = (is_prefix needle (ch # s) \<or> strstr s needle)"

text \<open>
  \<open>sscanf(buf, "%s %s HTTP/1.%c", method, uri, version)\<close>. A \<open>%s\<close> skips white space and
  takes the longest run of characters that are not white space (it fails at the end of the
  input); a blank in the format skips any white space; the other characters must match;
  \<open>%c\<close> takes the next character, whatever it is. The result is \<open>Some\<close> of the three
  values exactly when the call returns 3.
\<close>

definition scan_s :: "string \<Rightarrow> (string \<times> string) option" where
  "scan_s s =
     (let s1 = dropWhile isspace s;
          tok = takeWhile (\<lambda>ch. \<not> isspace ch) s1
      in if tok = [] then None else Some (tok, dropWhile (\<lambda>ch. \<not> isspace ch) s1))"

fun scan_lit :: "string \<Rightarrow> string \<Rightarrow> string option" where
  "scan_lit [] s = Some s"
| "scan_lit (k # ks) [] = None"
| "scan_lit (k # ks) (ch # s) = (if k = ch then scan_lit ks s else None)"

definition sscanf_request :: "string \<Rightarrow> (string \<times> string \<times> char) option" where
  "sscanf_request buf = do {
     (method, r1) \<leftarrow> scan_s buf;
     (uri, r2) \<leftarrow> scan_s (dropWhile isspace r1);
     r3 \<leftarrow> scan_lit ''HTTP/1.'' (dropWhile isspace r2);
     (case r3 of [] \<Rightarrow> None | version # _ \<Rightarrow> Some (method, uri, version))
   }"

text \<open>
  \<open>snprintf(buf, cap, ...)\<close> with the formatted text given: the buffer receives at most
  \<open>cap - 1\<close> characters, the return value is the length of the whole text.
\<close>

definition snprintf :: "nat \<Rightarrow> string \<Rightarrow> string \<times> nat" where
  "snprintf cap formatted = (take (cap - 1) formatted, length formatted)"

text \<open>
  \<open>sprintf\<close>, \<open>strcpy\<close> or \<open>strcat\<close> into a \<open>char[MAXLINE]\<close> array, with the resulting
  text given: the text and its NUL must fit.
\<close>

definition sprintf_into :: "string \<Rightarrow> fault + string" where
  "sprintf_into formatted = (if length formatted < MAXLINE then Inr formatted else Inl Buffer_overflow)"

text \<open>\<open>memcpy(dst + off, src, n)\<close> into an array \<open>dst\<close>, with \<open>n\<close> the length of \<open>src\<close>.\<close>

definition memcpy_at :: "string \<Rightarrow> nat \<Rightarrow> string \<Rightarrow> fault + string" where
  "memcpy_at dst off src =
     (if off + length src \<le> length dst
      then Inr (take off dst @ src @ drop (off + length src) dst)
      else Inl Buffer_overflow)"

subsection \<open>clienterror\<close>

definition error_body :: "string \<Rightarrow> string \<Rightarrow> string \<Rightarrow> string" where
  "error_body errnum shortmsg longmsg =
     ''<!DOCTYPE html>'' @ CRLF @
     ''<html>'' @ CRLF @
     ''<head><title>Proxy Error</title></head>'' @ CRLF @
     ''<body bgcolor='' @ [CHR 0x22] @ ''ffffff'' @ [CHR 0x22] @ ''>'' @ CRLF @
     ''<h1>'' @ c_str errnum @ '': '' @ c_str shortmsg @ ''</h1>'' @ CRLF @
     ''<p>'' @ c_str longmsg @ ''</p>'' @ CRLF @
     ''<hr /><em>The Web Proxy</em>'' @ CRLF @
     ''</body></html>'' @ CRLF"

definition error_headers :: "string \<Rightarrow> string \<Rightarrow> nat \<Rightarrow> string" where
  "error_headers errnum shortmsg bodylen =
     ''HTTP/1.0 '' @ c_str errnum @ '' '' @ c_str shortmsg @ CRLF @
     ''Content-Type: text/html'' @ CRLF @
     ''Content-Length: '' @ show_nat bodylen @ CRLF @ CRLF"

definition clienterror :: "conn \<Rightarrow> string \<Rightarrow> string \<Rightarrow> string \<Rightarrow> conn" where
  "clienterror fd errnum shortmsg longmsg =
     (let (body, bodylen) = snprintf MAXBUF (error_body errnum shortmsg longmsg)
      in if bodylen \<ge> MAXBUF then fd
         else
           let (buf, buflen) = snprintf MAXLINE (error_headers errnum shortmsg bodylen)
           in if buflen \<ge> MAXLINE then fd
              else
                let (fd1, r1) = rio_writen fd (take buflen buf)
                in if r1 < 0 then fd1
                   else
                     let (fd2, r2) = rio_writen fd1 (take bodylen body)
                     in fd2)"

subsection \<open>create_server_http_request\<close>

definition user_hdr :: string where
  "user_hdr = ''User-Agent: Mozilla/5.0 (X11; Linux x86_64; rv:3.10.0) Gecko/20191101 Firefox/63.0.1'' @ CRLF"

definition conn_hdr :: string where
  "conn_hdr = ''Connection: close'' @ CRLF"

definition prox_hdr :: string where
  "prox_hdr = ''Proxy-Connection: close'' @ CRLF"

definition endof_hdr :: string where
  "endof_hdr = CRLF"

definition host_hdr_format :: "string \<Rightarrow> string" where
  "host_hdr_format hostname = ''Host: '' @ hostname @ CRLF"

definition requestlint_hdr_format :: "string \<Rightarrow> string" where
  "requestlint_hdr_format path = ''GET '' @ path @ '' HTTP/1.0'' @ CRLF"

definition connection_key :: string where
  "connection_key = ''Connection''"

definition user_agent_key :: string where
  "user_agent_key = ''User-Agent''"

definition proxy_connection_key :: string where
  "proxy_connection_key = ''Proxy-Connection''"

definition host_key :: string where
  "host_key = ''Host''"

text \<open>
  The two local arrays that the function reads before it has written them:
  \<open>strlen(host_hdr)\<close> and \<open>strcat(other_hdr, buf)\<close> see whatever the stack holds. Their
  contents at entry (as C strings) are therefore an argument of the model.
\<close>

record hdr_bufs =
  host_hdr :: string
  other_hdr :: string

text \<open>
  The \<open>while (rio_readlineb(client_rio, buf, MAXLINE) > 0)\<close> loop over the lines that the
  reader returns; an empty element stands for a call that returns 0.
\<close>

fun header_loop :: "string list \<Rightarrow> hdr_bufs \<Rightarrow> fault + hdr_bufs" where
  "header_loop [] st = Inr st"
| "header_loop (line # rest) st =
     (if line = [] then Inr st
      else
        let buf = c_str line
        in if buf = endof_hdr then Inr st
           else if strstr buf host_key then header_loop rest (st\<lparr>host_hdr := buf\<rparr>)
           else if \<not> strstr buf connection_key \<and> \<not> strstr buf proxy_connection_key \<and>
                   \<not> strstr buf user_agent_key \<and> \<not> strstr buf host_key
           then (case sprintf_into (other_hdr st @ buf) of
                   Inl f \<Rightarrow> Inl f
                 | Inr cat \<Rightarrow> header_loop rest (st\<lparr>other_hdr := cat\<rparr>))
           else header_loop rest st)"

definition create_server_http_request ::
  "hdr_bufs \<Rightarrow> string \<Rightarrow> string \<Rightarrow> c_int \<Rightarrow> string list \<Rightarrow> fault + string" where
  "create_server_http_request stack hostname path port client_rio =
     (case sprintf_into (requestlint_hdr_format path) of
        Inl f \<Rightarrow> Inl f
      | Inr request_hdr \<Rightarrow>
          (case header_loop client_rio stack of
             Inl f \<Rightarrow> Inl f
           | Inr st \<Rightarrow>
               (case (if length (host_hdr st) = 0 then sprintf_into (host_hdr_format hostname)
                      else Inr (host_hdr st)) of
                  Inl f \<Rightarrow> Inl f
                | Inr host_hdr1 \<Rightarrow>
                    sprintf_into (request_hdr @ host_hdr1 @ conn_hdr @ prox_hdr @ user_hdr @
                                  other_hdr st @ endof_hdr))))"

subsection \<open>The relay loop and the cache insert of clientRequestHandler\<close>

text \<open>
  The \<open>while ((n = rio_readnb(&server_rio, buf, MAXLINE)) != 0)\<close> loop over the chunks
  that the reader returns; an empty element stands for a call that returns 0.
  \<open>ResponseObjectbuf\<close> is the array \<open>char ResponseObjectbuf[MAX_OBJECT_SIZE]\<close>. The
  result of \<open>rio_writen\<close> to the client is ignored, as in the source. A read error (a
  negative return of \<open>rio_readnb\<close>) is not modelled.
\<close>

record relay_state =
  sizebuf :: size_t
  ResponseObjectbuf :: string
  connfd :: conn

fun relay_loop :: "string list \<Rightarrow> relay_state \<Rightarrow> fault + relay_state" where
  "relay_loop [] st = Inr st"
| "relay_loop (buf # rest) st =
     (if buf = [] then Inr st
      else
        (case (if sizebuf st < MAX_OBJECT_SIZE
               then memcpy_at (ResponseObjectbuf st) (unat (sizebuf st)) buf
               else Inr (ResponseObjectbuf st)) of
           Inl f \<Rightarrow> Inl f
         | Inr tee \<Rightarrow>
             relay_loop rest
               (st\<lparr>ResponseObjectbuf := tee,
                    sizebuf := sizebuf st + of_nat (length buf),
                    connfd := fst (rio_writen (connfd st) buf)\<rparr>)))"

text \<open>
  The block under \<open>/*store it*/\<close> (proxy.c, lines 313 to 324). The key that
  \<open>cache_uri\<close> receives is a copy of the array \<open>uri\<close>, so the same C string. The lookup
  and the insert are two critical sections: \<open>cache_find\<close> gives the mutex back before it
  returns, the copy of the key takes and gives it once more, and \<open>cache_uri\<close> takes it
  again. \<open>others\<close> is what the other workers do to the cache in between.
\<close>

definition cache_store ::
  "(Cache \<Rightarrow> Cache) \<Rightarrow> string \<Rightarrow> string \<Rightarrow> size_t \<Rightarrow> Cache \<Rightarrow> Cache option" where
  "cache_store others uri tee szbuf c =
     (if szbuf < MAX_OBJECT_SIZE then
        (case cache_find uri c of
           None \<Rightarrow> None
         | Some (reqCachePtr, c1) \<Rightarrow>
             if reqCachePtr = None then cache_uri uri tee szbuf (others c1) else Some c1)
      else Some c)"

text \<open>
  \<open>lockMutex(); reqCachePtr->readReferenceCnt--; unLockMutex();\<close> (proxy.c, lines 230 to
  232), the only place where the count goes down.
\<close>

definition release_block :: "addr option \<Rightarrow> Cache \<Rightarrow> Cache option" where
  "release_block reqCachePtr c =
     pstore reqCachePtr (\<lambda>b. b\<lparr>readReferenceCnt := readReferenceCnt b - 1\<rparr>) c"

subsection \<open>clientRequestHandler\<close>

text \<open>
  The result of one transaction: which \<open>return\<close> of the function was taken, the client
  connection, the cache, and the request sent to the origin (\<open>None\<close> when no origin was
  contacted).
\<close>

datatype exit_path =
  Read_failed | Bad_request | Not_implemented | Served_from_cache
  | Uri_parse_failed | Connect_failed | Relayed

record worker_result =
  exit_by :: exit_path
  client :: conn
  cache :: Cache
  upstream :: "string option"

text \<open>
  What the function takes from outside: the URI parser of \<open>http_parser.h\<close> (host, optional
  port, path; \<open>None\<close> for any of its four failures, which differ in the log line only),
  the connector (\<open>None\<close> when \<open>open_clientfd\<close> fails, else the chunks that the origin
  answers to a request), what the other workers do to the cache between the probe and the
  lookup of the insert step (\<open>other_workers\<close>) and between that lookup and the insert
  (\<open>late_workers\<close>), and the contents of the uninitialised local arrays. The cache hit of
  lines 227 to 237 is taken with no other worker between its lookup and its release.
\<close>

record env =
  uri_parser :: "string \<Rightarrow> (string \<times> string option \<times> string) option"
  open_clientfd :: "string \<Rightarrow> string \<Rightarrow> (string \<Rightarrow> string list) option"
  other_workers :: "Cache \<Rightarrow> Cache"
  late_workers :: "Cache \<Rightarrow> Cache"
  stack_hdrs :: hdr_bufs
  stack_tee :: string

definition finish :: "exit_path \<Rightarrow> conn \<Rightarrow> Cache \<Rightarrow> string option \<Rightarrow> fault + worker_result" where
  "finish how fd c req = Inr \<lparr>exit_by = how, client = fd, cache = c, upstream = req\<rparr>"

text \<open>The cache hit of lines 227 to 237.\<close>

definition serve_cached :: "addr \<Rightarrow> conn \<Rightarrow> Cache \<Rightarrow> fault + worker_result" where
  "serve_cached p fd c1 =
     (case blocks c1 p of
        None \<Rightarrow> Inl Cache_stuck
      | Some b \<Rightarrow>
          (case release_block (Some p) c1 of
             None \<Rightarrow> Inl Cache_stuck
           | Some c2 \<Rightarrow>
               finish Served_from_cache
                 (fst (rio_writen fd (take (unat (cache_obj_size b)) (cache_obj b)))) c2 None))"

text \<open>Lines 240 to 324: parse the URI, build the request, connect, relay, insert.\<close>

definition fetch_origin ::
  "env \<Rightarrow> string \<Rightarrow> string \<Rightarrow> string list \<Rightarrow> conn \<Rightarrow> Cache \<Rightarrow> fault + worker_result" where
  "fetch_origin E uri buf rest fd c1 =
     (case uri_parser E buf of
        None \<Rightarrow> finish Uri_parse_failed fd c1 None
      | Some (hostname, portVal, path) \<Rightarrow>
          (case create_server_http_request (stack_hdrs E) hostname path
                  (case portVal of None \<Rightarrow> 80 | Some pv \<Rightarrow> atoi pv) rest of
             Inl f \<Rightarrow> Inl f
           | Inr server_http_request \<Rightarrow>
               (case open_clientfd E hostname
                       (show_int (sint (case portVal of None \<Rightarrow> 80 | Some pv \<Rightarrow> atoi pv))) of
                  None \<Rightarrow> finish Connect_failed fd c1 None
                | Some server \<Rightarrow>
                    (case relay_loop (server server_http_request)
                            \<lparr>sizebuf = 0, ResponseObjectbuf = stack_tee E, connfd = fd\<rparr> of
                       Inl f \<Rightarrow> Inl f
                     | Inr st \<Rightarrow>
                         (case cache_store (late_workers E) uri (ResponseObjectbuf st)
                                 (sizebuf st) (other_workers E c1) of
                            None \<Rightarrow> Inl Cache_stuck
                          | Some c2 \<Rightarrow>
                              finish Relayed (connfd st) c2 (Some server_http_request))))))"

definition reject_400 :: "conn \<Rightarrow> Cache \<Rightarrow> fault + worker_result" where
  "reject_400 fd c =
     finish Bad_request
       (clienterror fd ''400'' ''Bad Request'' ''Proxy received a malformed request'') c None"

definition reject_501 :: "conn \<Rightarrow> Cache \<Rightarrow> fault + worker_result" where
  "reject_501 fd c =
     finish Not_implemented
       (clienterror fd ''501'' ''Not Implemented'' ''Proxy does not implement this method'') c None"

text \<open>
  \<open>client_rio\<close> is the list of lines that \<open>rio_readlineb\<close> returns on the client
  connection, the request line first.
\<close>

definition clientRequestHandler ::
  "env \<Rightarrow> string list \<Rightarrow> conn \<Rightarrow> Cache \<Rightarrow> fault + worker_result" where
  "clientRequestHandler E client_rio fd c =
     (case client_rio of
        [] \<Rightarrow> finish Read_failed fd c None
      | line # rest \<Rightarrow>
          if line = [] then finish Read_failed fd c None
          else
            (case sscanf_request (c_str line) of
               None \<Rightarrow> reject_400 fd c
             | Some (method, uri, version) \<Rightarrow>
                 if version \<noteq> CHR ''0'' \<and> version \<noteq> CHR ''1'' then reject_400 fd c
                 else if method \<noteq> ''GET'' then reject_501 fd c
                 else
                   (case cache_find uri c of
                      None \<Rightarrow> Inl Cache_stuck
                    | Some (reqCachePtr, c1) \<Rightarrow>
                        (case reqCachePtr of
                           Some p \<Rightarrow> serve_cached p fd c1
                         | None \<Rightarrow> fetch_origin E uri (c_str line) rest fd c1))))"

section \<open>Notions and states used in the statements\<close>

text \<open>The cache of a process that has just run \<open>cache_init\<close>.\<close>

definition boot_cache :: Cache where
  "boot_cache = cache_init \<lparr>cacheBlockHead = None, cacheBlockTail = None, cache_size = 0,
                            blocks = Map.empty, brk = 0\<rparr>"

text \<open>The cache after \<open>cache_uri("u", "x", 1)\<close> on \<open>boot_cache\<close>: one unpinned entry.\<close>

definition one_entry_cache :: Cache where
  "one_entry_cache =
     \<lparr>cacheBlockHead = Some 0, cacheBlockTail = Some 0, cache_size = 1,
      blocks = [0 \<mapsto> \<lparr>cache_obj = ''x'', cache_obj_size = 1, cache_uri_key = ''u'',
                       readReferenceCnt = 0, nextBlock = None, previousBlock = None\<rparr>],
      brk = 1\<rparr>"

definition entry_u :: entry where
  "entry_u = \<lparr>entry_uri = ''u'', entry_body = ''x'', entry_size = 1, pin_count = 0\<rparr>"

text \<open>
  The bytes by which an insert of \<open>len\<close> bytes would take the cache over its capacity
  (zero when it fits), and the entry that an insert of the body \<open>b\<close> under \<open>uri\<close> creates.
\<close>

definition shortfall :: "Cache \<Rightarrow> nat \<Rightarrow> nat" where
  "shortfall c len = (unat (cache_size c) + len) - unat MAX_CACHE_SIZE"

definition new_entry :: "string \<Rightarrow> string \<Rightarrow> entry" where
  "new_entry uri b = \<lparr>entry_uri = uri, entry_body = b, entry_size = of_nat (length b), pin_count = 0\<rparr>"

text \<open>A cache filled to its capacity by one unpinned entry.\<close>

definition full_cache :: Cache where
  "full_cache =
     \<lparr>cacheBlockHead = Some 0, cacheBlockTail = Some 0, cache_size = MAX_CACHE_SIZE,
      blocks = [0 \<mapsto> \<lparr>cache_obj = ''x'', cache_obj_size = MAX_CACHE_SIZE, cache_uri_key = ''u'',
                       readReferenceCnt = 0, nextBlock = None, previousBlock = None\<rparr>],
      brk = 1\<rparr>"

definition entry_full :: entry where
  "entry_full = \<lparr>entry_uri = ''u'', entry_body = ''x'', entry_size = MAX_CACHE_SIZE, pin_count = 0\<rparr>"

text \<open>
  What an entry list holds apart from the pin counts and the order: block address, key,
  body and size of every entry.
\<close>

definition contents :: "(addr \<times> entry) list \<Rightarrow> (addr \<times> string \<times> string \<times> size_t) set" where
  "contents es = (\<lambda>x. (fst x, entry_uri (snd x), entry_body (snd x), entry_size (snd x))) ` set es"

text \<open>
  An origin that answers with 8192-byte reads, a client connection that never breaks, the
  tee array before the relay, and a worker environment whose URI parser yields host
  \<open>h\<close> and path \<open>/x\<close>, whose connector reaches an origin that answers with the given
  chunks, with no other worker running and the local arrays empty.
\<close>

definition full_chunk :: string where
  "full_chunk = replicate 8192 (CHR ''a'')"

definition half_chunk :: string where
  "half_chunk = replicate 4096 (CHR ''a'')"

definition blank_tee :: string where
  "blank_tee = replicate 102400 (CHR 0x00)"

definition quiet_conn :: conn where
  "quiet_conn = \<lparr>sent = [], room = None\<rparr>"

definition relay_start :: relay_state where
  "relay_start = \<lparr>sizebuf = 0, ResponseObjectbuf = blank_tee, connfd = quiet_conn\<rparr>"

definition demo_env :: "string list \<Rightarrow> env" where
  "demo_env chunks =
     \<lparr>uri_parser = (\<lambda>line. Some (''h'', None, ''/x'')),
      open_clientfd = (\<lambda>hostname port. Some (\<lambda>request. chunks)),
      other_workers = (\<lambda>c. c),
      late_workers = (\<lambda>c. c),
      stack_hdrs = \<lparr>host_hdr = [], other_hdr = []\<rparr>,
      stack_tee = blank_tee\<rparr>"

definition demo_request :: "string list" where
  "demo_request = [''GET http://h/x HTTP/1.0'' @ CRLF, CRLF]"

text \<open>\<open>accepts fd n\<close>: the connection takes \<open>n\<close> more bytes without breaking.\<close>

definition accepts :: "conn \<Rightarrow> nat \<Rightarrow> bool" where
  "accepts fd n = (case room fd of None \<Rightarrow> True | Some r \<Rightarrow> n \<le> r)"

text \<open>The two error pages that the worker sends, with the length of their bodies filled in.\<close>

definition bad_request_page :: string where
  "bad_request_page =
     ''HTTP/1.0 400 Bad Request'' @ CRLF @ ''Content-Type: text/html'' @ CRLF @
     ''Content-Length: 207'' @ CRLF @ CRLF @
     error_body ''400'' ''Bad Request'' ''Proxy received a malformed request''"

definition not_implemented_page :: string where
  "not_implemented_page =
     ''HTTP/1.0 501 Not Implemented'' @ CRLF @ ''Content-Type: text/html'' @ CRLF @
     ''Content-Length: 213'' @ CRLF @ CRLF @
     error_body ''501'' ''Not Implemented'' ''Proxy does not implement this method''"

text \<open>
  The upstream request in the words of the specification. The header lines that count are
  those before the first empty \<open>CRLF\<close> line (or the end of the input); a line is a
  \<open>Host\<close> line when it contains \<open>Host\<close>, and it is passed on when it contains none of the
  four keys.
\<close>

definition is_host :: "string \<Rightarrow> bool" where
  "is_host b = strstr b host_key"

definition is_other :: "string \<Rightarrow> bool" where
  "is_other b = (\<not> strstr b host_key \<and> \<not> strstr b connection_key \<and>
                 \<not> strstr b proxy_connection_key \<and> \<not> strstr b user_agent_key)"

definition considered :: "string list \<Rightarrow> string list" where
  "considered client_rio = map c_str (takeWhile (\<lambda>line. line \<noteq> [] \<and> c_str line \<noteq> endof_hdr) client_rio)"

definition spec_upstream :: "string \<Rightarrow> string \<Rightarrow> string list \<Rightarrow> string" where
  "spec_upstream hostname path client_rio =
     requestlint_hdr_format path @
     (if filter is_host (considered client_rio) = [] then host_hdr_format hostname
      else last (filter is_host (considered client_rio))) @
     conn_hdr @ prox_hdr @ user_hdr @
     concat (filter is_other (considered client_rio)) @ endof_hdr"

text \<open>A header line of 5002 bytes that matches none of the four keys.\<close>

definition big_header :: string where
  "big_header = replicate 5000 (CHR ''a'') @ CRLF"

text \<open>
  A race: while this worker fetches \<open>http://h/x\<close>, another worker inserts the same URI.
  \<open>raced_cache\<close> is the cache after that insert (\<open>cache_uri\<close> of the one-byte body \<open>y\<close>
  on \<open>boot_cache\<close>); the origin answers with the one byte \<open>y\<close>.
\<close>

definition raced_cache :: Cache where
  "raced_cache =
     \<lparr>cacheBlockHead = Some 0, cacheBlockTail = Some 0, cache_size = 1,
      blocks = [0 \<mapsto> \<lparr>cache_obj = ''y'', cache_obj_size = 1, cache_uri_key = ''http://h/x'',
                       readReferenceCnt = 0, nextBlock = None, previousBlock = None\<rparr>],
      brk = 1\<rparr>"

definition racing_env :: env where
  "racing_env = (demo_env [''y''])\<lparr>other_workers := (\<lambda>c. raced_cache)\<rparr>"

text \<open>
  The same race a moment later: the other worker takes its own insert step (lookup, then
  \<open>cache_uri\<close> on a miss) for the same URI and the same one-byte body, after the lookup of
  this worker's insert step has missed and before its \<open>cache_uri\<close> takes the mutex.
\<close>

definition other_insert :: "Cache \<Rightarrow> Cache" where
  "other_insert c =
     (case cache_store (\<lambda>c. c) ''http://h/x'' ''y'' 1 c of None \<Rightarrow> c | Some c' \<Rightarrow> c')"

definition late_racing_env :: env where
  "late_racing_env = (demo_env [''y''])\<lparr>late_workers := other_insert\<rparr>"

section \<open>Properties of the linked list\<close>

lemma dseg_append:
  "dseg h prev p (es @ fs) lst q = (\<exists>l m. dseg h prev p es l m \<and> dseg h l m fs lst q)"
  by (induction es arbitrary: prev p) (auto split: option.splits)

lemma dseg_upd_other:
  "a \<notin> fst ` set es \<Longrightarrow> dseg (h(a := v)) prev p es lst q = dseg h prev p es lst q"
  by (induction es arbitrary: prev p) (auto split: option.splits)

lemma dseg_dom: "dseg h prev p es lst q \<Longrightarrow> x \<in> set es \<Longrightarrow> h (fst x) \<noteq> None"
  by (induction es arbitrary: prev p) (auto split: option.splits)

lemma dseg_last: "dseg h prev p es lst q \<Longrightarrow> es \<noteq> [] \<Longrightarrow> lst = Some (fst (last es))"
  by (induction es arbitrary: prev p) (auto split: option.splits)

lemma entry_of_ptr [simp]:
  "entry_of (b\<lparr>nextBlock := n\<rparr>) = entry_of b"
  "entry_of (b\<lparr>previousBlock := n\<rparr>) = entry_of b"
  by (simp_all add: entry_of_def)

lemma pstore_Some:
  "blocks c a = Some b \<Longrightarrow> pstore (Some a) f c = Some (c\<lparr>blocks := (blocks c)(a \<mapsto> f b)\<rparr>)"
  by (simp add: pstore_def)

lemma dseg_set_first_prev:
  assumes "dseg h prev p (x # es) lst q" "fst x \<notin> fst ` set es" "h (fst x) = Some b"
  shows "dseg (h(fst x \<mapsto> b\<lparr>previousBlock := prev'\<rparr>)) prev' p (x # es) lst q"
  using assms by (auto simp: dseg_upd_other)

lemma dseg_set_last_next:
  assumes "dseg h prev p es lst q" "es \<noteq> []" "distinct (map fst es)" "h (fst (last es)) = Some b"
  shows "dseg (h(fst (last es) \<mapsto> b\<lparr>nextBlock := q'\<rparr>)) prev p es lst q'"
  using assms
proof (induction es arbitrary: prev p)
  case Nil then show ?case by simp
next
  case (Cons x es)
  show ?case
  proof (cases "es = []")
    case True
    with Cons.prems show ?thesis by auto
  next
    case False
    with Cons.prems have ne: "fst (last es) \<noteq> fst x"
      by (metis distinct.simps(2) image_eqI last_in_set list.simps(9) set_map)
    from Cons.prems False obtain bx where bx: "h (fst x) = Some bx" "p = Some (fst x)"
      "entry_of bx = snd x" "previousBlock bx = prev"
      "dseg h (Some (fst x)) (nextBlock bx) es lst q"
      by (auto split: option.splits)
    from Cons.prems False have "h (fst (last es)) = Some b" "distinct (map fst es)" by auto
    from Cons.IH[OF bx(5) False this(2) this(1)]
    have "dseg (h(fst (last es) \<mapsto> b\<lparr>nextBlock := q'\<rparr>)) (Some (fst x)) (nextBlock bx) es lst q'" .
    moreover have "last (x # es) = last es" using False by simp
    ultimately show ?thesis using bx ne
      by (simp only: dseg.simps fun_upd_other option.case simp_thms)
  qed
qed

lemma relink_at_tail_list:
  assumes L: "dseg (blocks c) None hp es (cacheBlockTail c) None"
    and ne: "es \<noteq> []" and D: "distinct (map fst es)" and a: "a \<notin> fst ` set es"
    and ba: "blocks c a = Some ba"
  shows "\<exists>c'. relink_at_tail a c = Some c' \<and>
           dseg (blocks c') None hp (es @ [(a, entry_of ba)]) (Some a) None \<and>
           cacheBlockTail c' = Some a \<and> cacheBlockHead c' = cacheBlockHead c \<and>
           cache_size c' = cache_size c \<and> brk c' = brk c \<and> dom (blocks c') = dom (blocks c)"
proof -
  let ?t = "fst (last es)"
  from L ne have t: "cacheBlockTail c = Some ?t" by (rule dseg_last)
  have ta: "?t \<noteq> a" using a ne by (metis image_eqI last_in_set)
  obtain bt where bt: "blocks c ?t = Some bt" using dseg_dom[OF L, of "last es"] ne by auto
  let ?h1 = "(blocks c)(?t \<mapsto> bt\<lparr>nextBlock := Some a\<rparr>)"
  let ?h2 = "?h1(a \<mapsto> ba\<lparr>nextBlock := None, previousBlock := Some ?t\<rparr>)"
  let ?c' = "c\<lparr>cacheBlockTail := Some a, blocks := ?h2\<rparr>"
  have run: "relink_at_tail a c = Some ?c'"
    using t ta bt ba by (simp add: relink_at_tail_def pstore_def Let_def)
  have "dseg ?h1 None hp es (Some ?t) (Some a)"
    using dseg_set_last_next[OF L ne D bt] t by simp
  then have 1: "dseg ?h2 None hp es (Some ?t) (Some a)"
    using a by (simp add: dseg_upd_other del: fun_upd_apply)
  have 2: "dseg ?h2 (Some ?t) (Some a) [(a, entry_of ba)] (Some a) None"
    by simp
  have "dseg ?h2 None hp (es @ [(a, entry_of ba)]) (Some a) None"
    unfolding dseg_append using 1 2 by blast
  moreover have "dom ?h2 = dom (blocks c)" using bt ba by auto
  ultimately show ?thesis using run by simp
qed


lemma cache_hit_list:
  assumes CL: "cache_list c (pre @ (a, e) # post)"
  shows "\<exists>c'. cache_hit a c = Some c' \<and>
           cache_list c' (pre @ post @ [(a, e\<lparr>pin_count := pin_count e + 1\<rparr>)]) \<and>
           cache_size c' = cache_size c \<and> brk c' = brk c"
proof -
  let ?h = "blocks c"
  from CL obtain l b where
    P: "dseg ?h None (cacheBlockHead c) pre l (Some a)" and
    b: "?h a = Some b" "entry_of b = e" "previousBlock b = l" and
    Q: "dseg ?h (Some a) (nextBlock b) post (cacheBlockTail c) None"
    by (auto simp: cache_list_def dseg_append split: option.splits)
  from CL have D: "distinct (map fst pre)" "distinct (map fst post)"
    "a \<notin> fst ` set pre" "a \<notin> fst ` set post" "fst ` set pre \<inter> fst ` set post = {}"
    and A: "\<forall>x \<in> dom ?h. x < brk c"
    by (auto simp: cache_list_def)
  let ?b1 = "b\<lparr>readReferenceCnt := readReferenceCnt b + 1\<rparr>"
  let ?e1 = "e\<lparr>pin_count := pin_count e + 1\<rparr>"
  let ?h1 = "?h(a \<mapsto> ?b1)"
  let ?c1 = "c\<lparr>blocks := ?h1\<rparr>"
  have e1: "entry_of ?b1 = ?e1" using b(2) by (auto simp: entry_of_def)
  have P1: "dseg ?h1 None (cacheBlockHead c) pre l (Some a)"
    using P D by (simp add: dseg_upd_other del: fun_upd_apply)
  have Q1: "dseg ?h1 (Some a) (nextBlock b) post (cacheBlockTail c) None"
    using Q D by (simp add: dseg_upd_other del: fun_upd_apply)
  have dom1: "dom ?h1 = dom ?h" using b by auto
  have start: "pstore (Some a) (\<lambda>b. b\<lparr>readReferenceCnt := readReferenceCnt b + 1\<rparr>) c = Some ?c1"
    using b by (simp add: pstore_def)
  have self: "dseg hh prv (Some a) [(a, ?e1)] (Some a) None"
    if "hh a = Some bb" "entry_of bb = ?e1" "previousBlock bb = prv" "nextBlock bb = None" for hh bb prv
    using that by simp
  consider (only) "pre = []" "post = []" | (head) "pre = []" "post \<noteq> []"
    | (tail) "pre \<noteq> []" "post = []" | (middle) "pre \<noteq> []" "post \<noteq> []"
    by blast
  then show ?thesis
  proof cases
    case only
    with P Q b have "cacheBlockHead c = Some a" "cacheBlockTail c = Some a" "l = None" "nextBlock b = None"
      by auto
    then have "cache_hit a c = Some ?c1"
      using b by (simp add: cache_hit_def pstore_def deref_def)
    moreover have "cache_list ?c1 [(a, ?e1)]"
      using \<open>cacheBlockHead c = Some a\<close> \<open>cacheBlockTail c = Some a\<close> \<open>l = None\<close>
        \<open>nextBlock b = None\<close> b e1 A
      by (auto simp: cache_list_def)
    ultimately show ?thesis using only by simp
  next
    case tail
    from P tail(1) have l: "l = Some (fst (last pre))" by (rule dseg_last)
    from Q tail have nt: "nextBlock b = None" "cacheBlockTail c = Some a" by auto
    then have "cache_hit a c = Some ?c1"
      using b l by (simp add: cache_hit_def pstore_def deref_def)
    moreover have "dseg ?h1 l (Some a) [(a, ?e1)] (Some a) None"
      using b e1 nt by simp
    with P1 have "dseg ?h1 None (cacheBlockHead c) (pre @ [(a, ?e1)]) (cacheBlockTail c) None"
      unfolding dseg_append nt by blast
    then have "cache_list ?c1 (pre @ [(a, ?e1)])"
      using D A dom1 by (simp add: cache_list_def del: fun_upd_apply)
    ultimately show ?thesis using tail by simp
  next
    case head
    then obtain n en post' where post: "post = (n, en) # post'" by (cases post) auto
    from P head have hd: "cacheBlockHead c = Some a" "l = None" by auto
    from Q post obtain bn where bn: "nextBlock b = Some n" "?h n = Some bn"
      by (auto split: option.splits)
    have na: "n \<noteq> a" using D post by auto
    let ?h2 = "?h1(n \<mapsto> bn\<lparr>previousBlock := None\<rparr>)"
    let ?c2 = "c\<lparr>cacheBlockHead := Some n, blocks := ?h2\<rparr>"
    have Q2: "dseg ?h2 None (Some n) post (cacheBlockTail ?c2) None"
      using dseg_set_first_prev[of ?h1 "Some a" "Some n" "(n, en)" post' "cacheBlockTail c" None bn None]
        Q1 D bn na post by simp
    have "blocks ?c2 a = Some ?b1" using na by simp
    from relink_at_tail_list[of ?c2 "Some n" post a ?b1, OF _ head(2) D(2) D(4) this] Q2
    obtain c' where c': "relink_at_tail a ?c2 = Some c'"
      "dseg (blocks c') None (Some n) (post @ [(a, entry_of ?b1)]) (Some a) None"
      "cacheBlockTail c' = Some a" "cacheBlockHead c' = Some n"
      "cache_size c' = cache_size c" "brk c' = brk c" "dom (blocks c') = dom ?h2"
      by auto
    have "cache_hit a c = Some c'"
      using b hd bn na c'(1) by (simp add: cache_hit_def pstore_def deref_def)
    moreover have "dom ?h2 = dom ?h" using b bn by auto
    then have "cache_list c' (post @ [(a, ?e1)])"
      using c' e1 D A by (simp add: cache_list_def)
    ultimately show ?thesis using head c' by simp
  next
    case middle
    then obtain n en post' where post: "post = (n, en) # post'" by (cases post) auto
    from middle obtain f ef pre' where pre: "pre = (f, ef) # pre'" by (cases pre) auto
    from P middle(1) have l: "l = Some (fst (last pre))" by (rule dseg_last)
    from Q middle(2) have t: "cacheBlockTail c = Some (fst (last post))" by (rule dseg_last)
    from P pre have hd: "cacheBlockHead c = Some f" by auto
    from Q post obtain bn where bn: "nextBlock b = Some n" "?h n = Some bn"
      by (auto split: option.splits)
    let ?lp = "fst (last pre)"
    have lp_in: "?lp \<in> fst ` set pre" using middle by simp
    have t_in: "fst (last post) \<in> fst ` set post" using middle by simp
    have fa: "f \<noteq> a" using D pre by auto
    have ta: "fst (last post) \<noteq> a" using D t_in by metis
    have na: "n \<noteq> a" using D post by auto
    have lpa: "?lp \<noteq> a" using D lp_in by metis
    have lpn: "?lp \<noteq> n" using D post lp_in by auto
    obtain blp where blp: "?h ?lp = Some blp" using dseg_dom[OF P, of "last pre"] middle by auto
    let ?h2 = "?h1(n \<mapsto> bn\<lparr>previousBlock := l\<rparr>)"
    let ?h3 = "?h2(?lp \<mapsto> blp\<lparr>nextBlock := Some n\<rparr>)"
    let ?c3 = "c\<lparr>blocks := ?h3\<rparr>"
    have n_pre: "n \<notin> fst ` set pre" using D post by auto
    have lp_post: "?lp \<notin> fst ` set post" using D lp_in by auto
    have P2: "dseg ?h2 None (cacheBlockHead c) pre l (Some a)"
      using P1 n_pre by (simp add: dseg_upd_other del: fun_upd_apply)
    have "?h2 ?lp = Some blp" using blp lpa lpn by simp
    from dseg_set_last_next[OF P2 middle(1) D(1) this, of "Some n"]
    have P3: "dseg ?h3 None (cacheBlockHead c) pre l (Some n)" .
    have "dseg ?h2 l (Some n) post (cacheBlockTail c) None"
      using dseg_set_first_prev[of ?h1 "Some a" "Some n" "(n, en)" post' "cacheBlockTail c" None bn l]
        Q1 D bn na post by simp
    then have Q3: "dseg ?h3 l (Some n) post (cacheBlockTail c) None"
      using lp_post by (simp add: dseg_upd_other del: fun_upd_apply)
    have L3: "dseg (blocks ?c3) None (cacheBlockHead c) (pre @ post) (cacheBlockTail ?c3) None"
      unfolding dseg_append using P3 Q3 by auto
    have D3: "distinct (map fst (pre @ post))" "a \<notin> fst ` set (pre @ post)" "pre @ post \<noteq> []"
      using D middle by auto
    have "blocks ?c3 a = Some ?b1" using na lpa by simp
    from relink_at_tail_list[OF L3 D3(3) D3(1) D3(2) this]
    obtain c' where c': "relink_at_tail a ?c3 = Some c'"
      "dseg (blocks c') None (cacheBlockHead c) (pre @ post @ [(a, entry_of ?b1)]) (Some a) None"
      "cacheBlockTail c' = Some a" "cacheBlockHead c' = cacheBlockHead c"
      "cache_size c' = cache_size c" "brk c' = brk c" "dom (blocks c') = dom ?h3"
      by auto
    have "cache_hit a c = Some c'"
      using b hd bn na fa ta t l lpa lpn blp c'(1)
      by (simp add: cache_hit_def pstore_def deref_def)
    moreover have "dom ?h3 = dom ?h" using b bn blp by auto
    then have "cache_list c' (pre @ post @ [(a, ?e1)])"
      using c' e1 D A by (simp add: cache_list_def)
    ultimately show ?thesis using c' by simp
  qed
qed

section \<open>The cache operations on the sequence of entries\<close>

lemma entry_ofD:
  "entry_of b = e \<Longrightarrow> cache_uri_key b = entry_uri e \<and> cache_obj b = entry_body e \<and>
     cache_obj_size b = entry_size e \<and> readReferenceCnt b = pin_count e"
  by (auto simp: entry_of_def)

lemma entry_of_sel [simp]:
  "entry_uri (entry_of b) = cache_uri_key b" "entry_body (entry_of b) = cache_obj b"
  "entry_size (entry_of b) = cache_obj_size b" "pin_count (entry_of b) = readReferenceCnt b"
  by (simp_all add: entry_of_def)

lemma find_loop_miss:
  "dseg (blocks c) prev p es lst None \<Longrightarrow> url \<notin> set (keys es) \<Longrightarrow>
   cache_find_loop url p c = Some (None, c)"
proof (induction es arbitrary: prev p)
  case Nil
  then show ?case by (subst cache_find_loop.simps) simp
next
  case (Cons x es)
  then show ?case
    by (subst cache_find_loop.simps) (auto simp: keys_def split: option.splits dest!: entry_ofD)
qed

lemma find_loop_hit:
  "dseg (blocks c) prev p (pre @ (a, e) # post) lst None \<Longrightarrow> url \<notin> set (keys pre) \<Longrightarrow>
   entry_uri e = url \<Longrightarrow>
   cache_find_loop url p c = map_option (Pair (Some a)) (cache_hit a c)"
proof (induction pre arbitrary: prev p)
  case Nil
  then show ?case
    by (subst cache_find_loop.simps) (auto simp: keys_def split: option.splits dest!: entry_ofD)
next
  case (Cons x pre)
  then show ?case
    by (subst cache_find_loop.simps) (auto simp: keys_def split: option.splits dest!: entry_ofD)
qed

lemma cache_find_miss:
  "cache_list c es \<Longrightarrow> url \<notin> set (keys es) \<Longrightarrow> cache_find url c = Some (None, c)"
  unfolding cache_find_def cache_list_def by (blast intro: find_loop_miss)

lemma cache_find_hit:
  assumes "cache_list c (pre @ (a, e) # post)" "url \<notin> set (keys pre)" "entry_uri e = url"
  shows "\<exists>c'. cache_find url c = Some (Some a, c') \<and>
           cache_list c' (pre @ post @ [(a, e\<lparr>pin_count := pin_count e + 1\<rparr>)]) \<and>
           cache_size c' = cache_size c \<and> brk c' = brk c"
proof -
  from assms(1) have "dseg (blocks c) None (cacheBlockHead c) (pre @ (a, e) # post) (cacheBlockTail c) None"
    by (simp add: cache_list_def)
  from find_loop_hit[OF this assms(2,3)] cache_hit_list[OF assms(1)]
  show ?thesis by (auto simp: cache_find_def)
qed

lemma evict_loop_list:
  "cache_list c es \<Longrightarrow>
   (case evict_list req freed es of
      None \<Rightarrow> cache_eviction_loop req freed c = None
    | Some (F, es') \<Rightarrow>
        (\<exists>c'. cache_eviction_loop req freed c = Some (F, c') \<and> cache_list c' es' \<and>
              cache_size c' = cache_size c - (F - freed) \<and> brk c' = brk c))"
proof (induction es arbitrary: freed c)
  case Nil
  then have "cacheBlockHead c = None" by (simp add: cache_list_def)
  then show ?case using Nil by (subst cache_eviction_loop.simps) simp
next
  case (Cons x es)
  let ?h = "blocks c"
  from Cons.prems obtain b where
    hd: "cacheBlockHead c = Some (fst x)" and b: "?h (fst x) = Some b" "entry_of b = snd x"
      "previousBlock b = None" and
    Q: "dseg ?h (Some (fst x)) (nextBlock b) es (cacheBlockTail c) None" and
    D: "fst x \<notin> fst ` set es" "distinct (map fst es)" and A: "\<forall>a \<in> dom ?h. a < brk c"
    by (auto simp: cache_list_def split: option.splits)
  have pin: "readReferenceCnt b = pin_count (snd x)" "cache_obj_size b = entry_size (snd x)"
    using entry_ofD[OF b(2)] by auto
  show ?case
  proof (cases "freed < req \<and> pin_count (snd x) = 0")
    case False
    then have "cache_eviction_loop req freed c = (if freed < req then None else Some (freed, c))"
      using hd b pin by (subst cache_eviction_loop.simps) auto
    then show ?thesis using False Cons.prems by auto
  next
    case True
    let ?sz = "cache_obj_size b"
    have "\<exists>c2. cache_eviction_loop req freed c = cache_eviction_loop req (freed + ?sz) c2 \<and>
            cache_list c2 es \<and> cache_size c2 = cache_size c - ?sz \<and> brk c2 = brk c"
    proof (cases es)
      case Nil
      with Q have nb: "nextBlock b = None" by simp
      let ?c2 = "Free_block (fst x) (c\<lparr>cacheBlockHead := None, cacheBlockTail := None,
                   cache_size := cache_size c - ?sz\<rparr>)"
      have "cache_eviction_loop req freed c = cache_eviction_loop req (freed + ?sz) ?c2"
        using hd b pin True nb by (subst cache_eviction_loop.simps) simp
      moreover have "cache_list ?c2 []" using A by (auto simp: cache_list_def Free_block_def)
      ultimately show ?thesis using Nil by (auto simp: Free_block_def)
    next
      case (Cons y es')
      with Q obtain bn where bn: "nextBlock b = Some (fst y)" "?h (fst y) = Some bn"
        by (auto split: option.splits)
      let ?h1 = "?h(fst y \<mapsto> bn\<lparr>previousBlock := None\<rparr>)"
      let ?c2 = "Free_block (fst x) (c\<lparr>cacheBlockHead := Some (fst y), blocks := ?h1,
                   cache_size := cache_size c - ?sz\<rparr>)"
      have run: "cache_eviction_loop req freed c = cache_eviction_loop req (freed + ?sz) ?c2"
        using hd b pin True bn by (subst cache_eviction_loop.simps) (simp add: pstore_def)
      have "dseg ?h1 None (Some (fst y)) es (cacheBlockTail c) None"
        using dseg_set_first_prev[of ?h "Some (fst x)" "Some (fst y)" y es' "cacheBlockTail c" None bn None]
          Q D bn Cons by simp
      then have "dseg (?h1(fst x := None)) None (Some (fst y)) es (cacheBlockTail c) None"
        using D by (simp add: dseg_upd_other del: fun_upd_apply)
      moreover have "fst y < brk c" using A bn by auto
      ultimately have "cache_list ?c2 es" using A D by (auto simp: cache_list_def Free_block_def)
      with run show ?thesis by (auto simp: Free_block_def)
    qed
    then obtain c2 where c2: "cache_eviction_loop req freed c = cache_eviction_loop req (freed + ?sz) c2"
      "cache_list c2 es" "cache_size c2 = cache_size c - ?sz" "brk c2 = brk c" by blast
    from Cons.IH[OF c2(2), of "freed + ?sz"] True c2 pin
    show ?thesis by (auto split: option.splits)
  qed
qed

lemma dseg_upd_last_entry:
  assumes "dseg h prev p0 (es @ [(a, e)]) lst q" "a \<notin> fst ` set es" "h a = Some b"
    "nextBlock b' = nextBlock b" "previousBlock b' = previousBlock b"
  shows "dseg (h(a \<mapsto> b')) prev p0 (es @ [(a, entry_of b')]) lst q"
proof -
  from assms(1) obtain l m where 1: "dseg h prev p0 es l m" and 2: "dseg h l m [(a, e)] lst q"
    unfolding dseg_append by blast
  from 1 assms(2) have "dseg (h(a \<mapsto> b')) prev p0 es l m"
    by (simp add: dseg_upd_other del: fun_upd_apply)
  moreover from 2 assms(3-5) have "dseg (h(a \<mapsto> b')) l m [(a, entry_of b')] lst q"
    by simp
  ultimately show ?thesis unfolding dseg_append by blast
qed

lemma cache_link_tail_list:
  assumes L: "dseg (blocks c) None (cacheBlockHead c) es (cacheBlockTail c) None"
    and D: "distinct (map fst es)" and p: "p \<notin> fst ` set es" and bp: "blocks c p = Some bp"
  shows "\<exists>c' b'. cache_link_tail p c = Some c' \<and>
           dseg (blocks c') None (cacheBlockHead c') (es @ [(p, entry_of bp)]) (cacheBlockTail c') None \<and>
           cache_size c' = cache_size c \<and> brk c' = brk c \<and> dom (blocks c') = dom (blocks c) \<and>
           blocks c' p = Some b'"
proof (cases "es = []")
  case True
  with L have "cacheBlockHead c = None" "cacheBlockTail c = None" by auto
  then show ?thesis using True bp
    by (auto simp: cache_link_tail_def pstore_def Let_def)
next
  case False
  let ?t = "fst (last es)"
  from L False have t: "cacheBlockTail c = Some ?t" by (rule dseg_last)
  from L False have hd: "cacheBlockHead c \<noteq> None" by (cases es) auto
  have tp: "?t \<noteq> p" using p False by (metis image_eqI last_in_set)
  obtain bt where bt: "blocks c ?t = Some bt" using dseg_dom[OF L, of "last es"] False by auto
  let ?h2 = "(blocks c)(?t \<mapsto> bt\<lparr>nextBlock := Some p\<rparr>)"
  let ?h3 = "?h2(p \<mapsto> bp\<lparr>previousBlock := Some ?t, nextBlock := None\<rparr>)"
  let ?c' = "c\<lparr>cacheBlockTail := Some p, blocks := ?h3\<rparr>"
  have "(blocks c)(p \<mapsto> bp\<lparr>previousBlock := Some ?t\<rparr>, ?t \<mapsto> bt\<lparr>nextBlock := Some p\<rparr>,
          p \<mapsto> bp\<lparr>previousBlock := Some ?t, nextBlock := None\<rparr>) = ?h3"
    using tp by (auto simp: fun_upd_def)
  then have run: "cache_link_tail p c = Some ?c'"
    using t hd tp bt bp by (simp add: cache_link_tail_def pstore_def Let_def)
  have "dseg ?h2 None (cacheBlockHead c) es (Some ?t) (Some p)"
    using dseg_set_last_next[OF L False D bt] t by simp
  then have 1: "dseg ?h3 None (cacheBlockHead c) es (Some ?t) (Some p)"
    using p by (simp add: dseg_upd_other del: fun_upd_apply)
  have 2: "dseg ?h3 (Some ?t) (Some p) [(p, entry_of bp)] (Some p) None"
    by simp
  have "dseg ?h3 None (cacheBlockHead c) (es @ [(p, entry_of bp)]) (Some p) None"
    unfolding dseg_append using 1 2 by blast
  moreover have "dom ?h3 = dom (blocks c)" using bt bp by auto
  ultimately show ?thesis using run by simp
qed

lemma pstore_pstore:
  "Option.bind (pstore (Some p) f c) (pstore (Some p) g) = pstore (Some p) (g \<circ> f) c"
  by (auto simp: pstore_def split: option.splits)

lemma cache_uri_list:
  assumes CL: "cache_list c es"
  shows "case (if MAX_CACHE_SIZE < cache_size c + n
               then evict_list (cache_size c + n - MAX_CACHE_SIZE) 0 es else Some (0, es)) of
           None \<Rightarrow> cache_uri uri buf n c = None
         | Some (F, es') \<Rightarrow>
             (\<exists>c'. cache_uri uri buf n c = Some c' \<and>
                cache_list c' (es' @ [(brk c, \<lparr>entry_uri = uri, entry_body = take (unat n) buf,
                                             entry_size = n, pin_count = 0\<rparr>)]) \<and>
                cache_size c' = cache_size c - F + n \<and> brk c' = Suc (brk c))"
proof -
  define rest where "rest = (\<lambda>c1. do {
     let (p, c) = Malloc_block c1;
     c \<leftarrow> cache_link_tail p c;
     c \<leftarrow> pstore (Some p) (\<lambda>t. t\<lparr>cache_obj := take (unat n) buf\<rparr>) c;
     c \<leftarrow> pstore (Some p) (\<lambda>t. t\<lparr>cache_obj_size := n\<rparr>) c;
     c \<leftarrow> pstore (Some p) (\<lambda>t. t\<lparr>cache_uri_key := uri\<rparr>) c;
     c \<leftarrow> pstore (Some p) (\<lambda>t. t\<lparr>readReferenceCnt := 0\<rparr>) c;
     Some (c\<lparr>cache_size := cache_size c + n\<rparr>)
   })"
  let ?new = "\<lparr>entry_uri = uri, entry_body = take (unat n) buf, entry_size = n, pin_count = 0\<rparr>"
  have rest_ok: "\<exists>c'. rest c1 = Some c' \<and> cache_list c' (es1 @ [(brk c1, ?new)]) \<and>
                   cache_size c' = cache_size c1 + n \<and> brk c' = Suc (brk c1)"
    if c1: "cache_list c1 es1" for c1 es1
  proof -
    let ?p = "brk c1"
    let ?b0 = "\<lparr>cache_obj = [], cache_obj_size = 0, cache_uri_key = [],
                readReferenceCnt = 0, nextBlock = None, previousBlock = None\<rparr>"
    let ?cm = "c1\<lparr>blocks := (blocks c1)(?p \<mapsto> ?b0), brk := Suc ?p\<rparr>"
    from c1 have L: "dseg (blocks c1) None (cacheBlockHead c1) es1 (cacheBlockTail c1) None"
      and D: "distinct (map fst es1)" and A: "\<forall>a \<in> dom (blocks c1). a < brk c1"
      by (auto simp: cache_list_def)
    have fresh: "?p \<notin> fst ` set es1"
    proof
      assume "?p \<in> fst ` set es1"
      then obtain x where "x \<in> set es1" "fst x = ?p" by auto
      with dseg_dom[OF L this(1)] A show False by (auto simp: dom_def)
    qed
    have Lm: "dseg (blocks ?cm) None (cacheBlockHead ?cm) es1 (cacheBlockTail ?cm) None"
      using L fresh by (simp add: dseg_upd_other del: fun_upd_apply)
    have "blocks ?cm ?p = Some ?b0" by simp
    from cache_link_tail_list[OF Lm D fresh this]
    obtain c2 b2 where c2: "cache_link_tail ?p ?cm = Some c2"
      "dseg (blocks c2) None (cacheBlockHead c2) (es1 @ [(?p, entry_of ?b0)]) (cacheBlockTail c2) None"
      "cache_size c2 = cache_size c1" "brk c2 = Suc ?p" "dom (blocks c2) = dom (blocks ?cm)"
      "blocks c2 ?p = Some b2" by auto
    let ?b3 = "b2\<lparr>cache_obj := take (unat n) buf, cache_obj_size := n, cache_uri_key := uri,
                   readReferenceCnt := 0\<rparr>"
    let ?c3 = "c2\<lparr>blocks := (blocks c2)(?p \<mapsto> ?b3), cache_size := cache_size c2 + n\<rparr>"
    have run: "rest c1 = Some ?c3"
      using c2(1,6) by (simp add: rest_def Malloc_block_def pstore_def)
    have "dseg (blocks ?c3) None (cacheBlockHead ?c3) (es1 @ [(?p, entry_of ?b3)]) (cacheBlockTail ?c3) None"
      using dseg_upd_last_entry[OF c2(2) fresh c2(6), of ?b3] by simp
    moreover have "entry_of ?b3 = ?new" by (simp add: entry_of_def)
    moreover have "dom (blocks ?c3) = insert ?p (dom (blocks c1))" using c2(5,6) by auto
    moreover have "\<forall>a \<in> insert ?p (dom (blocks c1)). a < Suc ?p"
      using A by (auto intro: less_SucI)
    ultimately have "cache_list ?c3 (es1 @ [(?p, ?new)])"
      using D fresh c2(4) by (simp add: cache_list_def del: fun_upd_apply)
    with run c2 show ?thesis by simp
  qed
  have split: "cache_uri uri buf n c =
      Option.bind (if MAX_CACHE_SIZE < cache_size c + n
                   then map_option snd (cache_eviction (cache_size c + n - MAX_CACHE_SIZE) c)
                   else Some c) rest"
    by (simp add: cache_uri_def rest_def)
  show ?thesis
  proof (cases "MAX_CACHE_SIZE < cache_size c + n")
    case False
    with rest_ok[OF CL] show ?thesis by (simp add: split)
  next
    case True
    show ?thesis
    proof (cases "evict_list (cache_size c + n - MAX_CACHE_SIZE) 0 es")
      case None
      with evict_loop_list[OF CL, of "cache_size c + n - MAX_CACHE_SIZE" 0] True
      show ?thesis by (simp add: split cache_eviction_def)
    next
      case (Some r)
      obtain F es' where r: "r = (F, es')" by (cases r)
      with Some evict_loop_list[OF CL, of "cache_size c + n - MAX_CACHE_SIZE" 0]
      obtain c1 where c1: "cache_eviction (cache_size c + n - MAX_CACHE_SIZE) c = Some (F, c1)"
        "cache_list c1 es'" "cache_size c1 = cache_size c - F" "brk c1 = brk c"
        by (auto simp: cache_eviction_def)
      from rest_ok[OF c1(2)] c1 True Some r show ?thesis by (auto simp: split)
    qed
  qed
qed

section \<open>Reading the entries off the heap\<close>

lemma walk_blocks_dseg:
  "dseg h prev p es lst None \<Longrightarrow> walk_blocks h p = Some es"
proof (induction es arbitrary: prev p)
  case Nil
  then show ?case by (subst walk_blocks.simps) simp
next
  case (Cons x es)
  then show ?case
    by (subst walk_blocks.simps) (auto split: option.splits simp: prod_eq_iff)
qed

lemma cache_entries_list: "cache_list c es \<Longrightarrow> cache_entries c = Some es"
  unfolding cache_list_def cache_entries_def by (blast intro: walk_blocks_dseg)

lemma cache_init_list:
  "\<forall>a \<in> dom (blocks c). a < brk c \<Longrightarrow> cache_list (cache_init c) [] \<and> cache_size (cache_init c) = 0"
  by (simp add: cache_list_def cache_init_def)

lemma boot_cache_list: "cache_list boot_cache []"
  by (simp add: cache_list_def boot_cache_def cache_init_def)

lemma one_entry_cache_list: "cache_list one_entry_cache [(0, entry_u)]"
  by (simp add: cache_list_def one_entry_cache_def entry_of_def entry_u_def)

lemma one_entry_cache_reached: "cache_uri ''u'' ''x'' 1 boot_cache = Some one_entry_cache"
  by (simp add: cache_uri_def boot_cache_def cache_init_def MAX_CACHE_SIZE_def Malloc_block_def
      cache_link_tail_def pstore_def one_entry_cache_def)

lemma dseg_upd_entry:
  assumes "dseg h prev p0 (pre @ (a, e) # post) lst q" "a \<notin> fst ` set pre" "a \<notin> fst ` set post"
    "h a = Some b" "nextBlock b' = nextBlock b" "previousBlock b' = previousBlock b"
  shows "dseg (h(a \<mapsto> b')) prev p0 (pre @ (a, entry_of b') # post) lst q"
proof -
  from assms(1) obtain l m where 1: "dseg h prev p0 pre l m" and 2: "dseg h l m ((a, e) # post) lst q"
    unfolding dseg_append by blast
  from 1 assms(2) have "dseg (h(a \<mapsto> b')) prev p0 pre l m"
    by (simp add: dseg_upd_other del: fun_upd_apply)
  moreover from 2 assms(3-6) have "dseg (h(a \<mapsto> b')) l m ((a, entry_of b') # post) lst q"
    by (simp add: dseg_upd_other)
  ultimately show ?thesis unfolding dseg_append by blast
qed

lemma release_block_list:
  assumes "cache_list c (pre @ (a, e) # post)"
  shows "\<exists>c'. release_block (Some a) c = Some c' \<and>
           cache_list c' (pre @ (a, e\<lparr>pin_count := pin_count e - 1\<rparr>) # post) \<and>
           cache_size c' = cache_size c \<and> brk c' = brk c"
proof -
  from assms obtain l b where b: "blocks c a = Some b" "entry_of b = e"
    by (auto simp: cache_list_def dseg_append split: option.splits)
  let ?b' = "b\<lparr>readReferenceCnt := readReferenceCnt b - 1\<rparr>"
  let ?c' = "c\<lparr>blocks := (blocks c)(a \<mapsto> ?b')\<rparr>"
  have run: "release_block (Some a) c = Some ?c'"
    using b by (simp add: release_block_def pstore_def)
  have e': "entry_of ?b' = e\<lparr>pin_count := pin_count e - 1\<rparr>"
    using b(2) by (auto simp: entry_of_def)
  from assms have L: "dseg (blocks c) None (cacheBlockHead c) (pre @ (a, e) # post) (cacheBlockTail c) None"
    and D: "a \<notin> fst ` set pre" "a \<notin> fst ` set post" "distinct (map fst (pre @ (a, e) # post))"
    and A: "\<forall>x \<in> dom (blocks c). x < brk c"
    by (auto simp: cache_list_def)
  from dseg_upd_entry[OF L D(1,2) b(1), of ?b'] e'
  have "dseg (blocks ?c') None (cacheBlockHead ?c') (pre @ (a, e\<lparr>pin_count := pin_count e - 1\<rparr>) # post)
          (cacheBlockTail ?c') None" by simp
  moreover have "dom (blocks ?c') = dom (blocks c)" using b by auto
  ultimately have "cache_list ?c' (pre @ (a, e\<lparr>pin_count := pin_count e - 1\<rparr>) # post)"
    using D A by (simp add: cache_list_def del: fun_upd_apply)
  with run show ?thesis by simp
qed


section \<open>Release of a handle\<close>

text \<open>
  The release of a handle, the decrement of proxy.c lines 230 to 232, on an entry whose
  count is positive: the count goes down by exactly one, as a number, and every other
  entry is left as it is.
\<close>

lemma sint_pred:
  fixes w :: c_int
  assumes "0 < sint w"
  shows "sint (w - 1) = sint w - 1"
proof -
  have "sint w < 2 ^ 31" using sint_lt[of w] by simp
  with assms show ?thesis
    by (simp add: sint_word_ariths signed_take_bit_int_eq_self)
qed

lemma sint_succ:
  fixes w :: c_int
  assumes "0 \<le> sint w" "sint w < 2 ^ 31 - 1"
  shows "sint (w + 1) = sint w + 1"
  using assms by (simp add: sint_word_ariths signed_take_bit_int_eq_self)

lemma release_decrements_pinned:
  assumes "cache_list c (pre @ (a, e) # post)" "0 < sint (pin_count e)"
  shows "\<exists>c'. release_block (Some a) c = Some c' \<and>
           cache_list c' (pre @ (a, e\<lparr>pin_count := pin_count e - 1\<rparr>) # post) \<and>
           sint (pin_count e - 1) = sint (pin_count e) - 1"
  using release_block_list[OF assms(1)] sint_pred[OF assms(2)] by blast

text \<open>
  The worker releases only what its own lookup has pinned (lines 227 to 232). After a hit
  on an entry whose count \<open>n\<close> is in the range \<open>0 \<le> n < INT_MAX\<close>, the count is \<open>n + 1\<close> at
  the release, and the release takes it back to \<open>n\<close>.
\<close>

lemma hit_then_release:
  assumes "cache_list c (pre @ (a, e) # post)" "uri \<notin> set (keys pre)" "entry_uri e = uri"
    "0 \<le> sint (pin_count e)" "sint (pin_count e) < 2 ^ 31 - 1"
  shows "\<exists>c1 c2. cache_find uri c = Some (Some a, c1) \<and>
           cache_list c1 (pre @ post @ [(a, e\<lparr>pin_count := pin_count e + 1\<rparr>)]) \<and>
           sint (pin_count e + 1) = sint (pin_count e) + 1 \<and>
           release_block (Some a) c1 = Some c2 \<and> cache_list c2 (pre @ post @ [(a, e)])"
proof -
  from cache_find_hit[OF assms(1-3)]
  obtain c1 where c1: "cache_find uri c = Some (Some a, c1)"
    "cache_list c1 (pre @ post @ [(a, e\<lparr>pin_count := pin_count e + 1\<rparr>)])" by blast
  from c1(2) have "cache_list c1 ((pre @ post) @ (a, e\<lparr>pin_count := pin_count e + 1\<rparr>) # [])"
    by simp
  from release_block_list[OF this]
  obtain c2 where c2: "release_block (Some a) c1 = Some c2"
    "cache_list c2 (pre @ post @ [(a, e)])" by auto
  with c1 sint_succ[OF assms(4,5)] show ?thesis by blast
qed

section \<open>Sizes and eviction\<close>

lemma cache_uri_no_evict:
  assumes "cache_list c es" "\<not> MAX_CACHE_SIZE < cache_size c + n"
  shows "\<exists>c'. cache_uri uri buf n c = Some c' \<and>
           cache_list c' (es @ [(brk c, \<lparr>entry_uri = uri, entry_body = take (unat n) buf,
                                        entry_size = n, pin_count = 0\<rparr>)]) \<and>
           cache_size c' = cache_size c + n \<and> brk c' = Suc (brk c)"
  using cache_uri_list[OF assms(1), where n=n and uri=uri and buf=buf] assms(2) by simp

lemma MAX_CACHE_SIZE_unat: "unat MAX_CACHE_SIZE = 1048576"
  by (simp add: MAX_CACHE_SIZE_def)

lemma MAX_OBJECT_SIZE_unat: "unat MAX_OBJECT_SIZE = 102400"
  by (simp add: MAX_OBJECT_SIZE_def)

lemma size_t_add_unat:
  fixes a b :: size_t
  assumes "unat a + unat b \<le> 1048576 + 1048576"
  shows "unat (a + b) = unat a + unat b"
proof -
  have "unat a + unat b < 2 ^ LENGTH(64)" using assms by simp
  then show ?thesis by (simp only: unat_add_lem)
qed

lemma spec_evict_zero [simp]: "spec_evict 0 es = es"
  by (cases es) simp_all

lemma total_bytes_simps [simp]:
  "total_bytes [] = 0"
  "total_bytes (x # es) = unat (entry_size (snd x)) + total_bytes es"
  "total_bytes (es @ fs) = total_bytes es + total_bytes fs"
  by (simp_all add: total_bytes_def)

lemma spec_evict_enough:
  "r \<le> total_bytes es \<Longrightarrow> total_bytes (spec_evict r es) + r \<le> total_bytes es"
proof (induction es arbitrary: r)
  case Nil
  then show ?case by simp
next
  case (Cons x es)
  show ?case
  proof (cases "r \<le> unat (entry_size (snd x))")
    case True
    then show ?thesis by (cases "r = 0") auto
  next
    case False
    with Cons.prems have "r - unat (entry_size (snd x)) \<le> total_bytes es" by simp
    from Cons.IH[OF this] False show ?thesis by simp
  qed
qed

lemma evict_list_spec:
  assumes "\<forall>x \<in> set es. pin_count (snd x) = 0" "unat freed + total_bytes es < 2 ^ 64"
  shows "\<exists>F. evict_list req freed es = Some (F, spec_evict (unat req - unat freed) es) \<and>
           unat F + total_bytes (spec_evict (unat req - unat freed) es) = unat freed + total_bytes es"
  using assms
proof (induction es arbitrary: freed)
  case Nil
  then show ?case by simp
next
  case (Cons x es)
  show ?case
  proof (cases "freed < req")
    case False
    then have "unat req - unat freed = 0" by (simp add: word_less_nat_alt)
    with False show ?thesis by simp
  next
    case True
    let ?sz = "entry_size (snd x)"
    have sum: "unat (freed + ?sz) = unat freed + unat ?sz"
      using Cons.prems(2) by (subst unat_add_lem[symmetric]) simp
    have "unat (freed + ?sz) + total_bytes es < 2 ^ 64" using Cons.prems(2) sum by simp
    from Cons.IH[OF _ this] Cons.prems(1)
    obtain F where F: "evict_list req (freed + ?sz) es = Some (F, spec_evict (unat req - unat (freed + ?sz)) es)"
      "unat F + total_bytes (spec_evict (unat req - unat (freed + ?sz)) es) = unat (freed + ?sz) + total_bytes es"
      by auto
    have pos: "unat req - unat freed \<noteq> 0" using True by (simp add: word_less_nat_alt)
    have "unat req - unat (freed + ?sz) = unat req - unat freed - unat ?sz" using sum by simp
    with F pos True Cons.prems(1) sum show ?thesis by simp
  qed
qed

lemma full_cache_list: "cache_list full_cache [(0, entry_full)]"
  by (simp add: cache_list_def full_cache_def entry_of_def entry_full_def)

text \<open>
  C6. Take a well-formed cache whose \<open>cache_size\<close> is the sum of the sizes of its entries
  and is at most \<open>MAX_CACHE_SIZE\<close>, with every entry unpinned, and a body \<open>b\<close> of at most
  \<open>MAX_OBJECT_SIZE\<close> bytes. Then \<open>cache_uri\<close> returns. If the insert would take the total
  over \<open>MAX_CACHE_SIZE\<close>, \<open>cache_eviction\<close> runs first, for exactly the shortfall
  \<open>(cache_size + len b) - MAX_CACHE_SIZE\<close>: it frees at least that much and leaves the entries
  that the specification's eviction of that many bytes leaves. The new entry is appended to these.
  After the insert \<open>cache_size\<close> is at most \<open>MAX_CACHE_SIZE\<close> and equals the sum of the
  sizes of the present entries.
\<close>

theorem insert_evicts_shortfall:
  assumes wf: "cache_list c es" and tot: "unat (cache_size c) = total_bytes es"
    and unp: "\<forall>x \<in> set es. pin_count (snd x) = 0"
    and cap: "cache_size c \<le> MAX_CACHE_SIZE"
    and len: "length b \<le> unat MAX_OBJECT_SIZE"
  shows "\<exists>c'. cache_uri uri b (of_nat (length b)) c = Some c' \<and>
           cache_list c' (spec_evict (shortfall c (length b)) es @ [(brk c, new_entry uri b)]) \<and>
           cache_size c' \<le> MAX_CACHE_SIZE \<and>
           unat (cache_size c') =
             total_bytes (spec_evict (shortfall c (length b)) es @ [(brk c, new_entry uri b)]) \<and>
           (MAX_CACHE_SIZE < cache_size c + of_nat (length b) \<longrightarrow>
              (\<exists>F c1. cache_eviction (of_nat (shortfall c (length b))) c = Some (F, c1) \<and>
                 cache_list c1 (spec_evict (shortfall c (length b)) es) \<and>
                 shortfall c (length b) \<le> unat F))"
proof -
  let ?n = "of_nat (length b) :: size_t"
  let ?T = "unat (cache_size c)"
  let ?s = "length b"
  let ?r = "shortfall c ?s"
  have s: "unat ?n = ?s" using len
    by (simp add: MAX_OBJECT_SIZE_unat unat_of_nat)
  have T: "?T \<le> 1048576" using cap by (simp add: word_le_nat_alt MAX_CACHE_SIZE_unat)
  have s_le: "?s \<le> 102400" using len by (simp add: MAX_OBJECT_SIZE_unat)
  have sum: "unat (cache_size c + ?n) = ?T + ?s"
    using size_t_add_unat[of "cache_size c" ?n] T s_le s by simp
  have body: "take (unat ?n) b = b" using s by simp
  let ?new = "\<lparr>entry_uri = uri, entry_body = take (unat ?n) b, entry_size = ?n, pin_count = 0\<rparr>"
  have new: "?new = new_entry uri b" using body by (simp add: new_entry_def)
  have new_sz: "total_bytes [(brk c, new_entry uri b)] = ?s" using s by (simp add: new_entry_def)
  show ?thesis
  proof (cases "MAX_CACHE_SIZE < cache_size c + ?n")
    case False
    then have le: "?T + ?s \<le> 1048576"
      using sum by (simp add: word_less_nat_alt MAX_CACHE_SIZE_unat)
    then have r0: "?r = 0" by (simp add: shortfall_def MAX_CACHE_SIZE_unat)
    from cache_uri_no_evict[OF wf False, of uri b] new
    obtain c' where c': "cache_uri uri b ?n c = Some c'"
      "cache_list c' (es @ [(brk c, new_entry uri b)])" "cache_size c' = cache_size c + ?n"
      by auto
    have "cache_size c' \<le> MAX_CACHE_SIZE"
      using c'(3) sum le by (simp add: word_le_nat_alt MAX_CACHE_SIZE_unat)
    moreover have "unat (cache_size c') = total_bytes (es @ [(brk c, new_entry uri b)])"
      using c'(3) sum tot new_sz by simp
    ultimately show ?thesis using c' r0 False by simp
  next
    case True
    then have gt: "1048576 < ?T + ?s"
      using sum by (simp add: word_less_nat_alt MAX_CACHE_SIZE_unat)
    let ?req = "cache_size c + ?n - MAX_CACHE_SIZE"
    have req: "unat ?req = ?r"
      using True sum by (simp add: unat_sub less_imp_le shortfall_def)
    have req_eq: "?req = of_nat ?r" unfolding req[symmetric] by simp
    have r_le: "?r \<le> total_bytes es" using tot s_le by (simp add: shortfall_def MAX_CACHE_SIZE_unat)
    have "unat (0 :: size_t) + total_bytes es < 2 ^ 64" using tot T by simp
    from evict_list_spec[OF unp this, of ?req] req
    obtain F where F: "evict_list ?req 0 es = Some (F, spec_evict ?r es)"
      "unat F + total_bytes (spec_evict ?r es) = total_bytes es"
      by auto
    from spec_evict_enough[OF r_le] F(2) have F_ge: "?r \<le> unat F" by simp
    have F_le: "F \<le> cache_size c" using F(2) tot by (simp add: word_le_nat_alt)
    from evict_loop_list[OF wf, of ?req 0] F(1)
    obtain c1 where c1: "cache_eviction ?req c = Some (F, c1)" "cache_list c1 (spec_evict ?r es)"
      by (auto simp: cache_eviction_def)
    from cache_uri_list[OF wf, where n = ?n and uri = uri and buf = b] True F(1) new
    obtain c' where c': "cache_uri uri b ?n c = Some c'"
      "cache_list c' (spec_evict ?r es @ [(brk c, new_entry uri b)])"
      "cache_size c' = cache_size c - F + ?n"
      by auto
    have rest: "unat (cache_size c - F) = total_bytes (spec_evict ?r es)"
      using F_le F(2) tot by (simp add: unat_sub)
    have bound: "total_bytes (spec_evict ?r es) + ?s \<le> 1048576"
      using spec_evict_enough[OF r_le] tot gt by (simp add: shortfall_def MAX_CACHE_SIZE_unat)
    have fin: "unat (cache_size c') = total_bytes (spec_evict ?r es) + ?s"
      using size_t_add_unat[of "cache_size c - F" ?n] rest s bound c'(3) by simp
    have "cache_size c' \<le> MAX_CACHE_SIZE"
      using fin bound by (simp add: word_le_nat_alt MAX_CACHE_SIZE_unat)
    moreover have "unat (cache_size c') = total_bytes (spec_evict ?r es @ [(brk c, new_entry uri b)])"
      using fin new_sz by simp
    ultimately show ?thesis using c' c1 F_ge req_eq by auto
  qed
qed

theorem insert_evicts_shortfall_witness:
  "cache_list full_cache [(0, entry_full)] \<and>
   unat (cache_size full_cache) = total_bytes [(0, entry_full)] \<and>
   pin_count entry_full = 0 \<and>
   cache_size full_cache \<le> MAX_CACHE_SIZE \<and>
   length ''y'' \<le> unat MAX_OBJECT_SIZE \<and>
   MAX_CACHE_SIZE < cache_size full_cache + of_nat (length ''y'') \<and>
   shortfall full_cache (length ''y'') = 1 \<and>
   (\<exists>c'. cache_uri ''v'' ''y'' (of_nat (length ''y'')) full_cache = Some c' \<and>
      cache_list c' [(1, new_entry ''v'' ''y'')] \<and>
      cache_size c' \<le> MAX_CACHE_SIZE \<and>
      unat (cache_size c') = 1 \<and>
      (\<exists>F c1. cache_eviction 1 full_cache = Some (F, c1) \<and> cache_list c1 [] \<and> 1 \<le> unat F))"
proof -
  have h1: "unat (cache_size full_cache) = total_bytes [(0, entry_full)]"
    by (simp add: full_cache_def entry_full_def)
  have h2: "\<forall>x \<in> set [(0, entry_full)]. pin_count (snd x) = 0"
    by (simp add: entry_full_def)
  have h3: "cache_size full_cache \<le> MAX_CACHE_SIZE"
    by (simp add: full_cache_def)
  have h4: "length ''y'' \<le> unat MAX_OBJECT_SIZE"
    by (simp add: MAX_OBJECT_SIZE_unat)
  have h5: "MAX_CACHE_SIZE < cache_size full_cache + of_nat (length ''y'')"
    by (simp add: full_cache_def MAX_CACHE_SIZE_def)
  have sf: "shortfall full_cache (length ''y'') = 1"
    by (simp add: shortfall_def full_cache_def)
  have ev: "spec_evict 1 [(0, entry_full)] = []"
    by simp
  have br: "brk full_cache = 1"
    by (simp add: full_cache_def)
  have nb: "total_bytes [(1, new_entry ''v'' ''y'')] = 1"
    by (simp add: new_entry_def)
  from insert_evicts_shortfall[OF full_cache_list h1 h2 h3 h4, of "''v''"] h5
  have "\<exists>c'. cache_uri ''v'' ''y'' (of_nat (length ''y'')) full_cache = Some c' \<and>
      cache_list c' [(1, new_entry ''v'' ''y'')] \<and>
      cache_size c' \<le> MAX_CACHE_SIZE \<and>
      unat (cache_size c') = 1 \<and>
      (\<exists>F c1. cache_eviction 1 full_cache = Some (F, c1) \<and> cache_list c1 [] \<and> 1 \<le> unat F)"
    unfolding sf ev br by (simp add: new_entry_def)
  moreover have "pin_count entry_full = 0" by (simp add: entry_full_def)
  ultimately show ?thesis using full_cache_list h1 h3 h4 h5 sf by blast
qed

section \<open>The recency order\<close>

text \<open>
  C7. On an empty cache (as \<open>cache_init\<close> leaves it), three inserts of \<open>A\<close>, \<open>B\<close>, \<open>C\<close>
  that together fit the capacity (so nothing is evicted), with no lookup in between, give
  the order \<open>A\<close>, \<open>B\<close>, \<open>C\<close> from head to tail, all unpinned. A lookup of \<open>A\<close> then returns
  the block of \<open>A\<close>, and the order is \<open>B\<close>, \<open>C\<close>, \<open>A\<close>: \<open>A\<close> is at the tail, with its pin
  count one higher, and nothing else has changed. The order is also what a walk along the
  \<open>nextBlock\<close> pointers from the head reads. (The three keys need not even be distinct.)
\<close>

theorem lru_order_law:
  assumes wf: "cache_list c []" and z: "cache_size c = 0"
    and fit: "unat nA + unat nB + unat nC \<le> unat MAX_CACHE_SIZE"
  shows "\<exists>c3 c4.
     Option.bind (Option.bind (cache_uri A bA nA c) (cache_uri B bB nB)) (cache_uri C bC nC) = Some c3 \<and>
     cache_list c3
       [(brk c, \<lparr>entry_uri = A, entry_body = take (unat nA) bA, entry_size = nA, pin_count = 0\<rparr>),
        (brk c + 1, \<lparr>entry_uri = B, entry_body = take (unat nB) bB, entry_size = nB, pin_count = 0\<rparr>),
        (brk c + 2, \<lparr>entry_uri = C, entry_body = take (unat nC) bC, entry_size = nC, pin_count = 0\<rparr>)] \<and>
     cache_find A c3 = Some (Some (brk c), c4) \<and>
     cache_list c4
       [(brk c + 1, \<lparr>entry_uri = B, entry_body = take (unat nB) bB, entry_size = nB, pin_count = 0\<rparr>),
        (brk c + 2, \<lparr>entry_uri = C, entry_body = take (unat nC) bC, entry_size = nC, pin_count = 0\<rparr>),
        (brk c, \<lparr>entry_uri = A, entry_body = take (unat nA) bA, entry_size = nA, pin_count = 1\<rparr>)] \<and>
     map_option keys (cache_entries c3) = Some [A, B, C] \<and>
     map_option keys (cache_entries c4) = Some [B, C, A]"
proof -
  let ?eA = "\<lparr>entry_uri = A, entry_body = take (unat nA) bA, entry_size = nA, pin_count = 0\<rparr>"
  let ?eB = "\<lparr>entry_uri = B, entry_body = take (unat nB) bB, entry_size = nB, pin_count = 0\<rparr>"
  let ?eC = "\<lparr>entry_uri = C, entry_body = take (unat nC) bC, entry_size = nC, pin_count = 0\<rparr>"
  from fit have f: "unat nA + unat nB + unat nC \<le> 1048576" by (simp add: MAX_CACHE_SIZE_unat)
  have ab: "unat (nA + nB) = unat nA + unat nB" using f by (intro size_t_add_unat) simp
  have abc: "unat (nA + nB + nC) = unat nA + unat nB + unat nC"
    using f ab size_t_add_unat[of "nA + nB" nC] by simp
  have 1: "\<not> MAX_CACHE_SIZE < cache_size c + nA"
    using f z by (simp add: word_less_nat_alt MAX_CACHE_SIZE_unat)
  from cache_uri_no_evict[OF wf 1, of A bA]
  obtain c1 where c1: "cache_uri A bA nA c = Some c1" "cache_list c1 [(brk c, ?eA)]"
    "cache_size c1 = nA" "brk c1 = Suc (brk c)" using z by auto
  have 2: "\<not> MAX_CACHE_SIZE < cache_size c1 + nB"
    using f ab c1(3) by (simp add: word_less_nat_alt MAX_CACHE_SIZE_unat)
  from cache_uri_no_evict[OF c1(2) 2, of B bB]
  obtain c2 where c2: "cache_uri B bB nB c1 = Some c2" "cache_list c2 [(brk c, ?eA), (brk c + 1, ?eB)]"
    "cache_size c2 = nA + nB" "brk c2 = Suc (Suc (brk c))" using c1 by auto
  have 3: "\<not> MAX_CACHE_SIZE < cache_size c2 + nC"
    using f abc c2(3) by (simp add: word_less_nat_alt MAX_CACHE_SIZE_unat)
  from cache_uri_no_evict[OF c2(2) 3, of C bC]
  obtain c3 where c3: "cache_uri C bC nC c2 = Some c3"
    "cache_list c3 [(brk c, ?eA), (brk c + 1, ?eB), (brk c + 2, ?eC)]" using c2 by auto
  have "cache_list c3 ([] @ (brk c, ?eA) # [(brk c + 1, ?eB), (brk c + 2, ?eC)])"
    using c3(2) by simp
  from cache_find_hit[OF this, of A]
  obtain c4 where c4: "cache_find A c3 = Some (Some (brk c), c4)"
    "cache_list c4 [(brk c + 1, ?eB), (brk c + 2, ?eC), (brk c, ?eA\<lparr>pin_count := pin_count ?eA + 1\<rparr>)]"
    by (auto simp: keys_def)
  have "map_option keys (cache_entries c3) = Some [A, B, C]"
    using cache_entries_list[OF c3(2)] by (simp add: keys_def)
  moreover have "map_option keys (cache_entries c4) = Some [B, C, A]"
    using cache_entries_list[OF c4(2)] by (simp add: keys_def)
  ultimately show ?thesis using c1(1) c2(1) c3 c4 by simp
qed

theorem lru_order_law_witness:
  "cache_list boot_cache [] \<and> cache_size boot_cache = 0 \<and>
   unat (1 :: size_t) + unat (1 :: size_t) + unat (1 :: size_t) \<le> unat MAX_CACHE_SIZE \<and>
   (\<exists>c3 c4.
      Option.bind (Option.bind (cache_uri ''A'' ''x'' 1 boot_cache) (cache_uri ''B'' ''y'' 1))
        (cache_uri ''C'' ''z'' 1) = Some c3 \<and>
      map_option keys (cache_entries c3) = Some [''A'', ''B'', ''C''] \<and>
      cache_find ''A'' c3 = Some (Some 0, c4) \<and>
      map_option keys (cache_entries c4) = Some [''B'', ''C'', ''A''] \<and>
      cache_list c4
        [(1, \<lparr>entry_uri = ''B'', entry_body = ''y'', entry_size = 1, pin_count = 0\<rparr>),
         (2, \<lparr>entry_uri = ''C'', entry_body = ''z'', entry_size = 1, pin_count = 0\<rparr>),
         (0, \<lparr>entry_uri = ''A'', entry_body = ''x'', entry_size = 1, pin_count = 1\<rparr>)])"
proof -
  have h1: "cache_size boot_cache = 0" by (simp add: boot_cache_def cache_init_def)
  have h2: "unat (1 :: size_t) + unat (1 :: size_t) + unat (1 :: size_t) \<le> unat MAX_CACHE_SIZE"
    by (simp add: MAX_CACHE_SIZE_unat)
  have br: "brk boot_cache = 0" by (simp add: boot_cache_def cache_init_def)
  from lru_order_law[OF boot_cache_list h1 h2, of "''A''" "''x''" "''B''" "''y''" "''C''" "''z''"]
  obtain c3 c4 where
    r1: "Option.bind (Option.bind (cache_uri ''A'' ''x'' 1 boot_cache) (cache_uri ''B'' ''y'' 1))
        (cache_uri ''C'' ''z'' 1) = Some c3" and
    r2: "map_option keys (cache_entries c3) = Some [''A'', ''B'', ''C'']" and
    r3: "cache_find ''A'' c3 = Some (Some (brk boot_cache), c4)" and
    r4: "map_option keys (cache_entries c4) = Some [''B'', ''C'', ''A'']" and
    r5: "cache_list c4
        [(brk boot_cache + 1, \<lparr>entry_uri = ''B'', entry_body = take (unat (1 :: size_t)) ''y'',
                                entry_size = 1, pin_count = 0\<rparr>),
         (brk boot_cache + 2, \<lparr>entry_uri = ''C'', entry_body = take (unat (1 :: size_t)) ''z'',
                                entry_size = 1, pin_count = 0\<rparr>),
         (brk boot_cache, \<lparr>entry_uri = ''A'', entry_body = take (unat (1 :: size_t)) ''x'',
                            entry_size = 1, pin_count = 1\<rparr>)]"
    by blast
  from r3 have r3': "cache_find ''A'' c3 = Some (Some 0, c4)" by (simp add: br)
  from r5 have r5': "cache_list c4
        [(1, \<lparr>entry_uri = ''B'', entry_body = ''y'', entry_size = 1, pin_count = 0\<rparr>),
         (2, \<lparr>entry_uri = ''C'', entry_body = ''z'', entry_size = 1, pin_count = 0\<rparr>),
         (0, \<lparr>entry_uri = ''A'', entry_body = ''x'', entry_size = 1, pin_count = 1\<rparr>)]"
    by (simp add: br numeral_2_eq_2)
  from boot_cache_list h1 h2 r1 r2 r3' r4 r5' show ?thesis by blast
qed

section \<open>The insert step of the worker\<close>

lemma keys_simps [simp]:
  "keys [] = []" "keys (x # es) = entry_uri (snd x) # keys es" "keys (es @ fs) = keys es @ keys fs"
  by (simp_all add: keys_def)

lemma keys_first_split:
  assumes "uri \<in> set (keys es)"
  shows "\<exists>pre a e post. es = pre @ (a, e) # post \<and> uri \<notin> set (keys pre) \<and> entry_uri e = uri"
proof -
  from assms have "\<exists>x \<in> set es. entry_uri (snd x) = uri" by (auto simp: keys_def)
  from split_list_first_prop[OF this]
  obtain pre x post where "es = pre @ x # post" "entry_uri (snd x) = uri"
    "\<forall>y \<in> set pre. entry_uri (snd y) \<noteq> uri" by blast
  then have "es = pre @ (fst x, snd x) # post \<and> uri \<notin> set (keys pre) \<and> entry_uri (snd x) = uri"
    by (auto simp: keys_def)
  then show ?thesis by blast
qed

lemma evict_list_None:
  "evict_list req freed es = None \<Longrightarrow> \<exists>x \<in> set es. pin_count (snd x) \<noteq> 0"
  by (induction es arbitrary: freed) (auto split: if_splits)

lemma evict_list_suffix:
  "evict_list req freed es = Some (F, es') \<Longrightarrow> \<exists>k. es' = drop k es"
proof (induction es arbitrary: freed)
  case Nil
  then show ?case by simp
next
  case (Cons x es)
  show ?case
  proof (cases "\<not> freed < req")
    case True
    with Cons.prems have "es' = drop 0 (x # es)" by simp
    then show ?thesis by blast
  next
    case False
    with Cons.prems have "evict_list req (freed + entry_size (snd x)) es = Some (F, es')"
      by (simp split: if_splits)
    from Cons.IH[OF this] obtain k where "es' = drop k es" by blast
    then have "es' = drop (Suc k) (x # es)" by simp
    then show ?thesis by blast
  qed
qed

lemma cache_store_hit:
  assumes "cache_list c (pre @ (a, e) # post)" "uri \<notin> set (keys pre)" "entry_uri e = uri"
    "szbuf < MAX_OBJECT_SIZE"
  shows "\<exists>c'. cache_store others uri tee szbuf c = Some c' \<and>
           cache_list c' (pre @ post @ [(a, e\<lparr>pin_count := pin_count e + 1\<rparr>)]) \<and>
           cache_size c' = cache_size c"
  using cache_find_hit[OF assms(1-3)] assms(4) by (auto simp: cache_store_def)

lemma cache_store_miss:
  assumes "cache_list c es" "uri \<notin> set (keys es)" "szbuf < MAX_OBJECT_SIZE"
  shows "cache_store others uri tee szbuf c = cache_uri uri tee szbuf (others c)"
  using cache_find_miss[OF assms(1,2)] assms(3) by (simp add: cache_store_def)

lemma pinned_head_blocks_eviction:
  assumes "cache_list c ((a, e) # es)" "pin_count e \<noteq> 0" "0 < req"
  shows "cache_eviction req c = None"
  using evict_loop_list[OF assms(1), of req 0] assms(2,3)
  by (simp add: cache_eviction_def word_greater_zero_iff)

text \<open>
  The insert step on a cache that holds the URI: the lookup of the step finds the entry
  and the insert is skipped, but the count that the lookup has raised is not taken down
  again. On the one-entry cache the step ends with the pin count at 1, and an eviction
  that reaches a pinned head never returns.
\<close>

lemma store_on_present_uri_leaves_pin:
  "Option.bind (cache_store (\<lambda>c. c) ''u'' ''y'' 1 one_entry_cache) cache_entries =
     Some [(0, \<lparr>entry_uri = ''u'', entry_body = ''x'', entry_size = 1, pin_count = 1\<rparr>)]"
proof -
  have "cache_list one_entry_cache ([] @ (0, entry_u) # [])"
    using one_entry_cache_list by simp
  from cache_store_hit[OF this, of "''u''" 1 "\<lambda>c. c" "''y''"]
  obtain c' where "cache_store (\<lambda>c. c) ''u'' ''y'' 1 one_entry_cache = Some c'"
    "cache_list c' [(0, entry_u\<lparr>pin_count := pin_count entry_u + 1\<rparr>)]"
    by (auto simp: entry_u_def MAX_OBJECT_SIZE_def)
  then show ?thesis by (simp add: cache_entries_list entry_u_def)
qed

text \<open>
  \<open>cache_uri\<close> itself does not look for the key: called on the cache that holds \<open>u\<close>, it
  appends a second entry with the same key. Whether a key stays unique is up to the
  lookup that the worker makes before the call.
\<close>

lemma cache_uri_appends_duplicate:
  "Option.bind (cache_uri ''u'' ''y'' 1 one_entry_cache) cache_entries =
     Some [(0, \<lparr>entry_uri = ''u'', entry_body = ''x'', entry_size = 1, pin_count = 0\<rparr>),
           (1, \<lparr>entry_uri = ''u'', entry_body = ''y'', entry_size = 1, pin_count = 0\<rparr>)]"
proof -
  have "\<not> MAX_CACHE_SIZE < cache_size one_entry_cache + 1"
    by (simp add: one_entry_cache_def MAX_CACHE_SIZE_def)
  from cache_uri_no_evict[OF one_entry_cache_list this, of "''u''" "''y''"]
  obtain c' where "cache_uri ''u'' ''y'' 1 one_entry_cache = Some c'"
    "cache_list c' [(0, entry_u), (1, \<lparr>entry_uri = ''u'', entry_body = ''y'', entry_size = 1, pin_count = 0\<rparr>)]"
    by (auto simp: one_entry_cache_def)
  then show ?thesis by (simp add: cache_entries_list entry_u_def)
qed

text \<open>
  The insert step when no other worker comes between its lookup and its insert. On a
  well-formed cache in which every URI appears at most once, the step returns unless the
  eviction has to wait for a pinned entry, and when it returns every URI still appears at
  most once. If the URI was present, no entry has been added and every entry has its
  block, key, body and size as before (the entry found has moved to the tail and its count
  has gone up, see \<open>cache_store_hit\<close>).
\<close>

lemma store_alone_keeps_uris_unique:
  assumes wf: "cache_list c es" and d: "distinct (keys es)"
  shows "case cache_store (\<lambda>c. c) uri tee n c of
           None \<Rightarrow> \<exists>x \<in> set es. pin_count (snd x) \<noteq> 0
         | Some c' \<Rightarrow>
             \<exists>es'. cache_list c' es' \<and> distinct (keys es') \<and>
               (uri \<in> set (keys es) \<longrightarrow> length es' = length es \<and> contents es' = contents es)"
proof (cases "n < MAX_OBJECT_SIZE")
  case False
  then have "cache_store (\<lambda>c. c) uri tee n c = Some c" by (simp add: cache_store_def)
  with wf d show ?thesis by auto
next
  case True
  show ?thesis
  proof (cases "uri \<in> set (keys es)")
    case True
    from keys_first_split[OF this] obtain pre a e post where
      es: "es = pre @ (a, e) # post" "uri \<notin> set (keys pre)" "entry_uri e = uri" by blast
    let ?es' = "pre @ post @ [(a, e\<lparr>pin_count := pin_count e + 1\<rparr>)]"
    from cache_store_hit[OF wf[unfolded es(1)] es(2,3) \<open>n < MAX_OBJECT_SIZE\<close>, of "\<lambda>c. c" tee]
    obtain c' where c': "cache_store (\<lambda>c. c) uri tee n c = Some c'" "cache_list c' ?es'" by blast
    have "distinct (keys ?es')" using d es(1) by auto
    moreover have "contents ?es' = contents es" using es(1) by (auto simp: contents_def)
    moreover have "length ?es' = length es" using es(1) by simp
    ultimately show ?thesis using c' by auto
  next
    case False
    note miss = cache_store_miss[OF wf False True, of "\<lambda>c. c" tee]
    let ?new = "\<lparr>entry_uri = uri, entry_body = take (unat n) tee, entry_size = n, pin_count = 0\<rparr>"
    let ?ev = "if MAX_CACHE_SIZE < cache_size c + n
               then evict_list (cache_size c + n - MAX_CACHE_SIZE) 0 es else Some (0, es)"
    show ?thesis
    proof (cases ?ev)
      case None
      then have "\<exists>x \<in> set es. pin_count (snd x) \<noteq> 0"
        by (auto split: if_splits dest: evict_list_None)
      moreover from cache_uri_list[OF wf, where n = n and uri = uri and buf = tee] None
      have "cache_uri uri tee n c = None" by simp
      ultimately show ?thesis using miss by simp
    next
      case (Some r)
      obtain F es' where r: "r = (F, es')" by (cases r)
      from Some r have "\<exists>k. es' = drop k es"
        by (auto split: if_splits dest: evict_list_suffix intro: exI[of _ 0])
      then obtain k where k: "es' = drop k es" by blast
      from cache_uri_list[OF wf, where n = n and uri = uri and buf = tee] Some r
      obtain c' where c': "cache_uri uri tee n c = Some c'" "cache_list c' (es' @ [(brk c, ?new)])"
        by auto
      have "set (keys es') \<subseteq> set (keys es)" unfolding k keys_def
        by (auto dest: in_set_dropD)
      moreover have "distinct (keys es')" unfolding k keys_def
        using d by (simp add: keys_def drop_map[symmetric] distinct_drop)
      ultimately have "distinct (keys (es' @ [(brk c, ?new)]))" using False by auto
      with c' miss False show ?thesis by auto
    qed
  qed
qed

section \<open>The relay loop\<close>

lemma full_chunk_length [simp]: "length full_chunk = 8192" "full_chunk \<noteq> []"
  by (auto simp: full_chunk_def)

lemma half_chunk_length [simp]: "length half_chunk = 4096" "half_chunk \<noteq> []"
  by (auto simp: half_chunk_def)

lemma blank_tee_length [simp]: "length blank_tee = 102400"
  by (simp add: blank_tee_def)

text \<open>One turn of the loop, by the position of the running total.\<close>

lemma relay_step_fits:
  assumes that: "room (connfd st) = None" and "buf \<noteq> []" "length (ResponseObjectbuf st) = 102400"
    "unat (sizebuf st) + length buf \<le> 102400"
  shows "\<exists>st'. relay_loop (buf # rest) st = relay_loop rest st' \<and>
           length (ResponseObjectbuf st') = 102400 \<and>
           unat (sizebuf st') = unat (sizebuf st) + length buf \<and>
           take (unat (sizebuf st')) (ResponseObjectbuf st') =
             take (unat (sizebuf st)) (ResponseObjectbuf st) @ buf \<and>
           sent (connfd st') = sent (connfd st) @ buf \<and> room (connfd st') = None"
proof -
  let ?off = "unat (sizebuf st)"
  have lt: "sizebuf st < MAX_OBJECT_SIZE"
    using assms by (cases buf) (auto simp: word_less_nat_alt MAX_OBJECT_SIZE_unat)
  have len: "unat (of_nat (length buf) :: size_t) = length buf"
    using assms(4) by (simp add: unat_of_nat)
  have sum: "unat (sizebuf st + of_nat (length buf)) = ?off + length buf"
    using size_t_add_unat[of "sizebuf st" "of_nat (length buf)"] len assms(4) by simp
  let ?tee = "take ?off (ResponseObjectbuf st) @ buf @ drop (?off + length buf) (ResponseObjectbuf st)"
  let ?st' = "st\<lparr>ResponseObjectbuf := ?tee, sizebuf := sizebuf st + of_nat (length buf),
                  connfd := fst (rio_writen (connfd st) buf)\<rparr>"
  have "relay_loop (buf # rest) st = relay_loop rest ?st'"
    using assms lt by (simp add: memcpy_at_def)
  moreover have "length ?tee = 102400" using assms by simp
  moreover have "take (?off + length buf) ?tee = take ?off (ResponseObjectbuf st) @ buf"
    using assms by simp
  ultimately show ?thesis using sum that by (auto simp: rio_writen_def)
qed

lemma relay_step_overflow:
  assumes "buf \<noteq> []" "length (ResponseObjectbuf st) = 102400"
    "unat (sizebuf st) < 102400" "102400 < unat (sizebuf st) + length buf"
  shows "relay_loop (buf # rest) st = Inl Buffer_overflow"
proof -
  have "sizebuf st < MAX_OBJECT_SIZE"
    using assms by (simp add: word_less_nat_alt MAX_OBJECT_SIZE_unat)
  then show ?thesis using assms by (simp add: memcpy_at_def)
qed

lemma relay_all_fit:
  assumes "\<forall>buf \<in> set chunks. buf \<noteq> []" "length (ResponseObjectbuf st) = 102400"
    "unat (sizebuf st) + length (concat chunks) \<le> 102400" "room (connfd st) = None"
  shows "\<exists>st'. relay_loop chunks st = Inr st' \<and>
           unat (sizebuf st') = unat (sizebuf st) + length (concat chunks) \<and>
           length (ResponseObjectbuf st') = 102400 \<and>
           take (unat (sizebuf st')) (ResponseObjectbuf st') =
             take (unat (sizebuf st)) (ResponseObjectbuf st) @ concat chunks \<and>
           sent (connfd st') = sent (connfd st) @ concat chunks \<and> room (connfd st') = None"
  using assms
proof (induction chunks arbitrary: st)
  case Nil
  then show ?case by simp
next
  case (Cons buf chunks)
  from Cons.prems have 1: "buf \<noteq> []" and 2: "unat (sizebuf st) + length buf \<le> 102400" by auto
  from relay_step_fits[OF Cons.prems(4) 1 Cons.prems(2) 2, of chunks]
  obtain st1 where st1: "relay_loop (buf # chunks) st = relay_loop chunks st1"
    "length (ResponseObjectbuf st1) = 102400"
    "unat (sizebuf st1) = unat (sizebuf st) + length buf"
    "take (unat (sizebuf st1)) (ResponseObjectbuf st1) = take (unat (sizebuf st)) (ResponseObjectbuf st) @ buf"
    "sent (connfd st1) = sent (connfd st) @ buf" "room (connfd st1) = None" by blast
  have "unat (sizebuf st1) + length (concat chunks) \<le> 102400" using st1(3) Cons.prems(3) by simp
  from Cons.IH[OF _ st1(2) this st1(6)] Cons.prems(1)
  obtain st' where "relay_loop chunks st1 = Inr st'"
    "unat (sizebuf st') = unat (sizebuf st1) + length (concat chunks)"
    "length (ResponseObjectbuf st') = 102400"
    "take (unat (sizebuf st')) (ResponseObjectbuf st') =
       take (unat (sizebuf st1)) (ResponseObjectbuf st1) @ concat chunks"
    "sent (connfd st') = sent (connfd st1) @ concat chunks" "room (connfd st') = None" by auto
  with st1 show ?case by simp
qed

lemma relay_append:
  "\<forall>buf \<in> set xs. buf \<noteq> [] \<Longrightarrow>
   relay_loop (xs @ ys) st = (case relay_loop xs st of Inl f \<Rightarrow> Inl f | Inr st' \<Rightarrow> relay_loop ys st')"
  by (induction xs arbitrary: st) (auto split: sum.splits)

lemma twelve_full_chunks:
  "\<exists>st. relay_loop (replicate 12 full_chunk) relay_start = Inr st \<and> unat (sizebuf st) = 98304 \<and>
     length (ResponseObjectbuf st) = 102400 \<and> room (connfd st) = None \<and>
     length (sent (connfd st)) = 98304"
proof -
  have len: "length (concat (replicate 12 full_chunk)) = 98304"
    by (simp add: length_concat sum_list_replicate)
  have "\<forall>buf \<in> set (replicate 12 full_chunk). buf \<noteq> []" by simp
  from relay_all_fit[OF this, of relay_start] len
  obtain st where st: "relay_loop (replicate 12 full_chunk) relay_start = Inr st"
    "unat (sizebuf st) = 98304" "length (ResponseObjectbuf st) = 102400"
    "sent (connfd st) = concat (replicate 12 full_chunk)" "room (connfd st) = None"
    by (auto simp: relay_start_def quiet_conn_def)
  with len show ?thesis by simp
qed

text \<open>
  Once the running total has reached \<open>MAX_OBJECT_SIZE\<close>, a turn of the loop leaves the
  array alone and still adds to the total.
\<close>

lemma relay_step_past_cap:
  assumes "buf \<noteq> []" "\<not> sizebuf st < MAX_OBJECT_SIZE"
  shows "relay_loop (buf # rest) st =
           relay_loop rest (st\<lparr>ResponseObjectbuf := ResponseObjectbuf st,
                                sizebuf := sizebuf st + of_nat (length buf),
                                connfd := fst (rio_writen (connfd st) buf)\<rparr>)"
  using assms by simp

text \<open>
  C3 (the code at the failing input). The origin sends 13 reads of 8192 bytes. After 12 of
  them the running total is 98304, below \<open>MAX_OBJECT_SIZE\<close> = 102400, so the guard lets the
  13th \<open>memcpy\<close> through: it copies 8192 bytes to offset 98304 of the 102400-byte array
  \<open>ResponseObjectbuf\<close>, 4096 bytes beyond its end.
\<close>

theorem tee_overflow:
  "relay_loop (replicate 12 full_chunk @ [full_chunk]) relay_start = Inl Buffer_overflow"
proof -
  from twelve_full_chunks obtain st where st: "relay_loop (replicate 12 full_chunk) relay_start = Inr st"
    "unat (sizebuf st) = 98304" "length (ResponseObjectbuf st) = 102400" by blast
  have "relay_loop [full_chunk] st = Inl Buffer_overflow"
    using st by (intro relay_step_overflow) simp_all
  with st(1) show ?thesis by (simp add: relay_append)
qed

lemma demo_request_line:
  "sscanf_request (c_str (''GET http://h/x HTTP/1.0'' @ CRLF)) = Some (''GET'', ''http://h/x'', CHR ''0'')"
  by (simp add: sscanf_request_def c_str_def CRLF_def scan_s_def isspace_def)

lemma demo_upstream:
  "create_server_http_request \<lparr>host_hdr = [], other_hdr = []\<rparr> ''h'' ''/x'' 80 [CRLF] =
     Inr (''GET /x HTTP/1.0'' @ CRLF @ ''Host: h'' @ CRLF @ conn_hdr @ prox_hdr @ user_hdr @ CRLF)"
  by (simp add: create_server_http_request_def sprintf_into_def requestlint_hdr_format_def
      host_hdr_format_def CRLF_def c_str_def endof_hdr_def MAXLINE_def conn_hdr_def prox_hdr_def
      user_hdr_def)

lemma exact_response_relayed:
  "\<exists>st. relay_loop (replicate 12 full_chunk @ [half_chunk]) relay_start = Inr st \<and>
     sizebuf st = MAX_OBJECT_SIZE \<and> length (sent (connfd st)) = 102400"
proof -
  let ?chunks = "replicate 12 full_chunk @ [half_chunk]"
  have len: "length (concat ?chunks) = 102400"
    by (simp add: length_concat sum_list_replicate)
  have "\<forall>buf \<in> set ?chunks. buf \<noteq> []" by auto
  from relay_all_fit[OF this, of relay_start] len
  obtain st where st: "relay_loop ?chunks relay_start = Inr st"
    "unat (sizebuf st) = 102400" "sent (connfd st) = concat ?chunks"
    by (auto simp: relay_start_def quiet_conn_def)
  from st(2) have "sizebuf st = MAX_OBJECT_SIZE"
    by (simp add: word_unat_eq_iff MAX_OBJECT_SIZE_unat)
  with st len show ?thesis by auto
qed

text \<open>
  C2 (the code at the failing input). The origin answers a \<open>GET\<close> for an uncached URI with
  exactly \<open>MAX_OBJECT_SIZE\<close> = 102400 bytes (12 reads of 8192 bytes and one of 4096). The
  worker relays all of them to the client and returns, and the cache is still empty: the
  test \<open>sizebuf < MAX_OBJECT_SIZE\<close> of the insert step is false at 102400.
\<close>

theorem exact_size_not_cached:
  "case clientRequestHandler (demo_env (replicate 12 full_chunk @ [half_chunk])) demo_request
          quiet_conn boot_cache of
     Inl f \<Rightarrow> False
   | Inr r \<Rightarrow> exit_by r = Relayed \<and> length (sent (client r)) = 102400 \<and>
              cache_entries (cache r) = Some []"
proof -
  from exact_response_relayed obtain st where
    st: "relay_loop (replicate 12 full_chunk @ [half_chunk]) relay_start = Inr st"
    "sizebuf st = MAX_OBJECT_SIZE" "length (sent (connfd st)) = 102400" by blast
  have find: "cache_find ''http://h/x'' boot_cache = Some (None, boot_cache)"
    using cache_find_miss[OF boot_cache_list] by simp
  have store: "cache_store (\<lambda>c. c) ''http://h/x'' (ResponseObjectbuf st) (sizebuf st) boot_cache = Some boot_cache"
    using st(2) by (simp add: cache_store_def)
  have "fetch_origin (demo_env (replicate 12 full_chunk @ [half_chunk])) ''http://h/x''
          (c_str (''GET http://h/x HTTP/1.0'' @ CRLF)) [CRLF] quiet_conn boot_cache =
        finish Relayed (connfd st) boot_cache
          (Some (''GET /x HTTP/1.0'' @ CRLF @ ''Host: h'' @ CRLF @ conn_hdr @ prox_hdr @ user_hdr @ CRLF))"
    using st(1) store demo_upstream
    by (simp add: fetch_origin_def demo_env_def relay_start_def[symmetric])
  then have "clientRequestHandler (demo_env (replicate 12 full_chunk @ [half_chunk])) demo_request
          quiet_conn boot_cache =
        finish Relayed (connfd st) boot_cache
          (Some (''GET /x HTTP/1.0'' @ CRLF @ ''Host: h'' @ CRLF @ conn_hdr @ prox_hdr @ user_hdr @ CRLF))"
    using demo_request_line find
    by (simp add: clientRequestHandler_def demo_request_def CRLF_def)
  then show ?thesis
    using st(3) cache_entries_list[OF boot_cache_list] by (simp add: finish_def)
qed

text \<open>
  For comparison: one byte less, 102399 bytes, and the worker inserts the response.
\<close>

lemma just_under_limit_is_cached:
  "case clientRequestHandler (demo_env (replicate 12 full_chunk @ [replicate 4095 (CHR ''a'')]))
          demo_request quiet_conn boot_cache of
     Inl f \<Rightarrow> False
   | Inr r \<Rightarrow> exit_by r = Relayed \<and>
              map_option (map (\<lambda>x. (entry_uri (snd x), length (entry_body (snd x)), pin_count (snd x))))
                (cache_entries (cache r)) = Some [(''http://h/x'', 102399, 0)]"
proof -
  let ?chunks = "replicate 12 full_chunk @ [replicate 4095 (CHR ''a'')]"
  have len: "length (concat ?chunks) = 102399"
    by (simp add: length_concat sum_list_replicate)
  have "\<forall>buf \<in> set ?chunks. buf \<noteq> []" by auto
  from relay_all_fit[OF this, of relay_start] len
  obtain st where st: "relay_loop ?chunks relay_start = Inr st"
    "unat (sizebuf st) = 102399" "length (ResponseObjectbuf st) = 102400"
    by (auto simp: relay_start_def quiet_conn_def)
  have lt: "sizebuf st < MAX_OBJECT_SIZE"
    using st(2) by (simp add: word_less_nat_alt MAX_OBJECT_SIZE_unat)
  have find: "cache_find ''http://h/x'' boot_cache = Some (None, boot_cache)"
    using cache_find_miss[OF boot_cache_list] by simp
  have ne: "\<not> MAX_CACHE_SIZE < cache_size boot_cache + sizebuf st"
    using st(2) by (simp add: word_less_nat_alt MAX_CACHE_SIZE_unat boot_cache_def cache_init_def)
  from cache_uri_no_evict[OF boot_cache_list ne, of "''http://h/x''" "ResponseObjectbuf st"]
  obtain c' where c': "cache_uri ''http://h/x'' (ResponseObjectbuf st) (sizebuf st) boot_cache = Some c'"
    "cache_list c' [(brk boot_cache, \<lparr>entry_uri = ''http://h/x'',
        entry_body = take (unat (sizebuf st)) (ResponseObjectbuf st),
        entry_size = sizebuf st, pin_count = 0\<rparr>)]"
    by auto
  have store: "cache_store (\<lambda>c. c) ''http://h/x'' (ResponseObjectbuf st) (sizebuf st) boot_cache = Some c'"
    using cache_store_miss[OF boot_cache_list _ lt, of "''http://h/x''" "\<lambda>c. c" "ResponseObjectbuf st"] c'(1)
    by simp
  have "fetch_origin (demo_env ?chunks) ''http://h/x''
          (c_str (''GET http://h/x HTTP/1.0'' @ CRLF)) [CRLF] quiet_conn boot_cache =
        finish Relayed (connfd st) c'
          (Some (''GET /x HTTP/1.0'' @ CRLF @ ''Host: h'' @ CRLF @ conn_hdr @ prox_hdr @ user_hdr @ CRLF))"
    using st(1) store demo_upstream
    by (simp add: fetch_origin_def demo_env_def relay_start_def[symmetric])
  then have "clientRequestHandler (demo_env ?chunks) demo_request quiet_conn boot_cache =
        finish Relayed (connfd st) c'
          (Some (''GET /x HTTP/1.0'' @ CRLF @ ''Host: h'' @ CRLF @ conn_hdr @ prox_hdr @ user_hdr @ CRLF))"
    using demo_request_line find
    by (simp add: clientRequestHandler_def demo_request_def CRLF_def)
  then show ?thesis
    using cache_entries_list[OF c'(2)] st(2,3) by (simp add: finish_def)
qed

section \<open>The error page\<close>

lemma clienterror_overflow:
  "MAXBUF \<le> length (error_body e s l) \<or>
   MAXLINE \<le> length (error_headers e s (length (error_body e s l))) \<Longrightarrow>
   clienterror fd e s l = fd"
  by (auto simp: clienterror_def snprintf_def)

lemma clienterror_fits:
  assumes "length (error_body e s l) < MAXBUF"
    "length (error_headers e s (length (error_body e s l))) < MAXLINE"
  shows "clienterror fd e s l =
     (let (fd1, r1) = rio_writen fd (error_headers e s (length (error_body e s l)))
      in if r1 < 0 then fd1 else fst (rio_writen fd1 (error_body e s l)))"
proof -
  have "take (length (error_body e s l)) (take (MAXBUF - 1) (error_body e s l)) = error_body e s l"
    using assms(1) by simp
  moreover have "take (length (error_headers e s (length (error_body e s l))))
          (take (MAXLINE - 1) (error_headers e s (length (error_body e s l)))) =
        error_headers e s (length (error_body e s l))"
    using assms(2) by simp
  ultimately show ?thesis using assms
    by (simp add: clienterror_def snprintf_def split_beta Let_def)
qed

lemma write_two_complete:
  assumes "accepts fd (length h + length b)"
  shows "sent (let (fd1, r1) = rio_writen fd h in if r1 < 0 then fd1 else fst (rio_writen fd1 b)) =
           sent fd @ h @ b"
proof (cases "room fd")
  case None
  then show ?thesis by (simp add: rio_writen_def)
next
  case (Some r)
  with assms have "length h \<le> r" "length b \<le> r - length h" by (auto simp: accepts_def)
  with Some show ?thesis by (simp add: rio_writen_def)
qed

lemma write_two_prefix:
  "\<exists>k. sent (let (fd1, r1) = rio_writen fd h in if r1 < 0 then fd1 else fst (rio_writen fd1 b)) =
         sent fd @ take k (h @ b)"
proof (cases "accepts fd (length h + length b)")
  case True
  from write_two_complete[OF this]
  have "sent (let (fd1, r1) = rio_writen fd h in if r1 < 0 then fd1 else fst (rio_writen fd1 b)) =
          sent fd @ take (length (h @ b)) (h @ b)" by simp
  then show ?thesis ..
next
  case False
  then obtain r where r: "room fd = Some r" "r < length h + length b"
    by (auto simp: accepts_def split: option.splits)
  show ?thesis
  proof (cases "length h \<le> r")
    case True
    with r have "\<not> length b \<le> r - length h" by linarith
    with True r have "sent (let (fd1, r1) = rio_writen fd h in if r1 < 0 then fd1 else fst (rio_writen fd1 b)) =
          sent fd @ take r (h @ b)" by (simp add: rio_writen_def)
    then show ?thesis ..
  next
    case False
    with r have "sent (let (fd1, r1) = rio_writen fd h in if r1 < 0 then fd1 else fst (rio_writen fd1 b)) =
          sent fd @ take r (h @ b)" by (simp add: rio_writen_def)
    then show ?thesis ..
  qed
qed

lemma clienterror_complete:
  assumes "length (error_body e s l) < MAXBUF"
    "length (error_headers e s (length (error_body e s l))) < MAXLINE"
    "accepts fd (length (error_headers e s (length (error_body e s l)) @ error_body e s l))"
  shows "sent (clienterror fd e s l) =
           sent fd @ error_headers e s (length (error_body e s l)) @ error_body e s l"
  using write_two_complete[of fd "error_headers e s (length (error_body e s l))" "error_body e s l"]
    assms by (simp add: clienterror_fits)

lemma show_nat_207: "show_nat 207 = ''207''"
  by code_simp

lemma show_nat_213: "show_nat 213 = ''213''"
  by code_simp

lemma page_400:
  "error_headers ''400'' ''Bad Request''
      (length (error_body ''400'' ''Bad Request'' ''Proxy received a malformed request'')) @
   error_body ''400'' ''Bad Request'' ''Proxy received a malformed request'' = bad_request_page"
  "length (error_body ''400'' ''Bad Request'' ''Proxy received a malformed request'') < MAXBUF"
  "length (error_headers ''400'' ''Bad Request''
      (length (error_body ''400'' ''Bad Request'' ''Proxy received a malformed request''))) < MAXLINE"
proof -
  have b: "length (error_body ''400'' ''Bad Request'' ''Proxy received a malformed request'') = 207"
    by (simp add: error_body_def c_str_def CRLF_def)
  show "error_headers ''400'' ''Bad Request''
      (length (error_body ''400'' ''Bad Request'' ''Proxy received a malformed request'')) @
   error_body ''400'' ''Bad Request'' ''Proxy received a malformed request'' = bad_request_page"
    unfolding b by (simp add: error_headers_def c_str_def show_nat_207 bad_request_page_def)
  show "length (error_body ''400'' ''Bad Request'' ''Proxy received a malformed request'') < MAXBUF"
    unfolding b by (simp add: MAXBUF_def)
  show "length (error_headers ''400'' ''Bad Request''
      (length (error_body ''400'' ''Bad Request'' ''Proxy received a malformed request''))) < MAXLINE"
    unfolding b by (simp add: error_headers_def c_str_def show_nat_207 CRLF_def MAXLINE_def)
qed

lemma page_501:
  "error_headers ''501'' ''Not Implemented''
      (length (error_body ''501'' ''Not Implemented'' ''Proxy does not implement this method'')) @
   error_body ''501'' ''Not Implemented'' ''Proxy does not implement this method'' = not_implemented_page"
  "length (error_body ''501'' ''Not Implemented'' ''Proxy does not implement this method'') < MAXBUF"
  "length (error_headers ''501'' ''Not Implemented''
      (length (error_body ''501'' ''Not Implemented'' ''Proxy does not implement this method''))) < MAXLINE"
proof -
  have b: "length (error_body ''501'' ''Not Implemented'' ''Proxy does not implement this method'') = 213"
    by (simp add: error_body_def c_str_def CRLF_def)
  show "error_headers ''501'' ''Not Implemented''
      (length (error_body ''501'' ''Not Implemented'' ''Proxy does not implement this method'')) @
   error_body ''501'' ''Not Implemented'' ''Proxy does not implement this method'' = not_implemented_page"
    unfolding b by (simp add: error_headers_def c_str_def show_nat_213 not_implemented_page_def)
  show "length (error_body ''501'' ''Not Implemented'' ''Proxy does not implement this method'') < MAXBUF"
    unfolding b by (simp add: MAXBUF_def)
  show "length (error_headers ''501'' ''Not Implemented''
      (length (error_body ''501'' ''Not Implemented'' ''Proxy does not implement this method''))) < MAXLINE"
    unfolding b by (simp add: error_headers_def c_str_def show_nat_213 CRLF_def MAXLINE_def)
qed

lemma responds_400:
  "accepts fd (length bad_request_page) \<Longrightarrow>
   sent (clienterror fd ''400'' ''Bad Request'' ''Proxy received a malformed request'') =
     sent fd @ bad_request_page"
  using clienterror_complete[OF page_400(2,3), of fd] by (simp only: page_400(1) append_assoc[symmetric])

lemma responds_501:
  "accepts fd (length not_implemented_page) \<Longrightarrow>
   sent (clienterror fd ''501'' ''Not Implemented'' ''Proxy does not implement this method'') =
     sent fd @ not_implemented_page"
  using clienterror_complete[OF page_501(2,3), of fd] by (simp only: page_501(1) append_assoc[symmetric])

text \<open>
  The decimal text of \<open>%zu\<close> denotes the number printed: \<open>atoi\<close>'s digit loop reads it back.
\<close>

lemma digit_char_val:
  "d < 10 \<Longrightarrow> isdigit (digit_char d) \<and> int (of_char (digit_char d)) - 48 = int d"
  by (simp add: isdigit_def digit_char_def)

lemma show_nat_digits: "\<forall>ch \<in> set (show_nat n). isdigit ch"
proof (induction n rule: show_nat.induct)
  case (1 n)
  show ?case
  proof (cases "n < 10")
    case True
    then show ?thesis using digit_char_val[of n] by (subst show_nat.simps) simp
  next
    case False
    with 1 digit_char_val[of "n mod 10"] show ?thesis by (subst show_nat.simps) auto
  qed
qed

lemma digits_val_append:
  "\<forall>ch \<in> set xs. isdigit ch \<Longrightarrow> digits_val acc (xs @ ys) = digits_val (digits_val acc xs) ys"
  by (induction xs arbitrary: acc) auto

lemma digits_val_show_nat: "digits_val 0 (show_nat n) = int n"
proof (induction n rule: show_nat.induct)
  case (1 n)
  show ?case
  proof (cases "n < 10")
    case True
    then show ?thesis using digit_char_val[of n] by (subst show_nat.simps) simp
  next
    case False
    have "digits_val 0 (show_nat n) =
          digits_val (digits_val 0 (show_nat (n div 10))) [digit_char (n mod 10)]"
      using False show_nat_digits[of "n div 10"]
      by (subst show_nat.simps) (simp add: digits_val_append)
    also have "\<dots> = 10 * int (n div 10) + int (n mod 10)"
      using 1 False digit_char_val[of "n mod 10"] by simp
    also have "\<dots> = int n" by presburger
    finally show ?thesis .
  qed
qed

text \<open>
  C10. For every error code, short message and long message, \<open>clienterror\<close> does one of two
  things. If the formatted body would fill its \<open>MAXBUF\<close> buffer, or the formatted headers
  their \<open>MAXLINE\<close> buffer, it returns with the connection untouched. Otherwise it writes
  the headers (status line, \<open>Content-Type\<close>, \<open>Content-Length\<close> with the length of the body,
  blank line) and then the whole body, on a connection that takes the bytes. In every
  case what it has written is a prefix of that complete response: it never sends headers
  that announce a body which it has cut short.
\<close>

theorem clienterror_all_or_nothing:
  "(MAXBUF \<le> length (error_body e s l) \<or>
    MAXLINE \<le> length (error_headers e s (length (error_body e s l))) \<longrightarrow>
      clienterror fd e s l = fd) \<and>
   (length (error_body e s l) < MAXBUF \<and>
    length (error_headers e s (length (error_body e s l))) < MAXLINE \<and>
    accepts fd (length (error_headers e s (length (error_body e s l))) + length (error_body e s l)) \<longrightarrow>
      sent (clienterror fd e s l) =
        sent fd @ error_headers e s (length (error_body e s l)) @ error_body e s l) \<and>
   (\<exists>k. sent (clienterror fd e s l) =
        sent fd @ take k (error_headers e s (length (error_body e s l)) @ error_body e s l))"
proof (intro conjI impI)
  assume "MAXBUF \<le> length (error_body e s l) \<or>
    MAXLINE \<le> length (error_headers e s (length (error_body e s l)))"
  then show "clienterror fd e s l = fd" by (rule clienterror_overflow)
next
  assume a: "length (error_body e s l) < MAXBUF \<and>
    length (error_headers e s (length (error_body e s l))) < MAXLINE \<and>
    accepts fd (length (error_headers e s (length (error_body e s l))) + length (error_body e s l))"
  then have "clienterror fd e s l =
     (let (fd1, r1) = rio_writen fd (error_headers e s (length (error_body e s l)))
      in if r1 < 0 then fd1 else fst (rio_writen fd1 (error_body e s l)))"
    by (intro clienterror_fits) simp_all
  with a write_two_complete[of fd "error_headers e s (length (error_body e s l))" "error_body e s l"]
  show "sent (clienterror fd e s l) =
        sent fd @ error_headers e s (length (error_body e s l)) @ error_body e s l"
    by (simp only:)
next
  show "\<exists>k. sent (clienterror fd e s l) =
        sent fd @ take k (error_headers e s (length (error_body e s l)) @ error_body e s l)"
  proof (cases "length (error_body e s l) < MAXBUF \<and>
    length (error_headers e s (length (error_body e s l))) < MAXLINE")
    case True
    then have "clienterror fd e s l =
     (let (fd1, r1) = rio_writen fd (error_headers e s (length (error_body e s l)))
      in if r1 < 0 then fd1 else fst (rio_writen fd1 (error_body e s l)))"
      by (intro clienterror_fits) simp_all
    with write_two_prefix[of fd "error_headers e s (length (error_body e s l))" "error_body e s l"]
    show ?thesis by (simp only:)
  next
    case False
    then have "clienterror fd e s l = fd" by (intro clienterror_overflow) auto
    then have "sent (clienterror fd e s l) =
        sent fd @ take 0 (error_headers e s (length (error_body e s l)) @ error_body e s l)"
      by simp
    then show ?thesis ..
  qed
qed

theorem clienterror_all_or_nothing_witness:
  "length (error_body ''400'' ''Bad Request'' ''Proxy received a malformed request'') < MAXBUF \<and>
   length (error_headers ''400'' ''Bad Request''
      (length (error_body ''400'' ''Bad Request'' ''Proxy received a malformed request''))) < MAXLINE \<and>
   accepts quiet_conn (length bad_request_page) \<and>
   sent (clienterror quiet_conn ''400'' ''Bad Request'' ''Proxy received a malformed request'') =
     bad_request_page \<and>
   MAXBUF \<le> length (error_body ''400'' ''Bad Request'' (replicate 8192 (CHR ''a''))) \<and>
   clienterror quiet_conn ''400'' ''Bad Request'' (replicate 8192 (CHR ''a'')) = quiet_conn"
proof -
  have a: "accepts quiet_conn n" for n by (simp add: accepts_def quiet_conn_def)
  have s0: "sent quiet_conn = []" by (simp add: quiet_conn_def)
  have big: "MAXBUF \<le> length (error_body ''400'' ''Bad Request'' (replicate 8192 (CHR ''a'')))"
    by (simp add: error_body_def c_str_def CRLF_def MAXBUF_def)
  from clienterror_all_or_nothing[of "''400''" "''Bad Request''"
      "''Proxy received a malformed request''" quiet_conn] page_400 a s0
  have 1: "sent (clienterror quiet_conn ''400'' ''Bad Request'' ''Proxy received a malformed request'') =
     bad_request_page" by simp
  from clienterror_all_or_nothing[of "''400''" "''Bad Request''" "replicate 8192 (CHR ''a'')" quiet_conn]
    big
  have 2: "clienterror quiet_conn ''400'' ''Bad Request'' (replicate 8192 (CHR ''a'')) = quiet_conn"
    by blast
  from page_400(2,3) a 1 big 2 show ?thesis by blast
qed

section \<open>The request line\<close>

lemma serve_cached_exit:
  "serve_cached p fd c = Inr r \<Longrightarrow> exit_by r = Served_from_cache \<and> upstream r = None"
  by (auto simp: serve_cached_def finish_def split: option.splits)

lemma fetch_origin_exit:
  "fetch_origin E uri buf rest fd c = Inr r \<Longrightarrow>
   exit_by r = Uri_parse_failed \<or> exit_by r = Connect_failed \<or> exit_by r = Relayed"
  by (auto simp: fetch_origin_def finish_def split: option.splits sum.splits prod.splits)

lemma handler_past_request_line:
  assumes "line \<noteq> []" "sscanf_request (c_str line) = Some (''GET'', uri, v)"
    "v = CHR ''0'' \<or> v = CHR ''1''" "clientRequestHandler E (line # rest) fd c = Inr r"
  shows "exit_by r \<noteq> Bad_request \<and> exit_by r \<noteq> Not_implemented"
  using assms serve_cached_exit fetch_origin_exit
  by (fastforce simp: clientRequestHandler_def split: option.splits prod.splits)

text \<open>
  C9. For every request line that was read (the first \<open>rio_readlineb\<close> returned a line):
  the worker leaves by the 400 exit exactly when \<open>sscanf\<close> does not yield the three values
  (method, URI, version digit) or the digit is neither \<open>0\<close> nor \<open>1\<close>; and for a line that
  passes this test it leaves by the 501 exit exactly when the method is not \<open>GET\<close>. On both
  exits the worker returns with the cache untouched and without a request to any origin,
  after \<open>clienterror\<close> with the code and messages of the source, which on a connection that
  takes the bytes sends the page \<open>HTTP/1.0 400 Bad Request\<close> (or \<open>501 Not Implemented\<close>).
\<close>

theorem request_line_rejections:
  assumes "line \<noteq> []"
  shows
    "((\<exists>r. clientRequestHandler E (line # rest) fd c = Inr r \<and> exit_by r = Bad_request) \<longleftrightarrow>
        (sscanf_request (c_str line) = None \<or>
         (\<exists>m u v. sscanf_request (c_str line) = Some (m, u, v) \<and> v \<noteq> CHR ''0'' \<and> v \<noteq> CHR ''1''))) \<and>
     ((sscanf_request (c_str line) = None \<or>
         (\<exists>m u v. sscanf_request (c_str line) = Some (m, u, v) \<and> v \<noteq> CHR ''0'' \<and> v \<noteq> CHR ''1'')) \<longrightarrow>
        clientRequestHandler E (line # rest) fd c =
          Inr \<lparr>exit_by = Bad_request,
               client = clienterror fd ''400'' ''Bad Request'' ''Proxy received a malformed request'',
               cache = c, upstream = None\<rparr> \<and>
        (accepts fd (length bad_request_page) \<longrightarrow>
           sent (clienterror fd ''400'' ''Bad Request'' ''Proxy received a malformed request'') =
             sent fd @ bad_request_page)) \<and>
     (\<forall>m u v. sscanf_request (c_str line) = Some (m, u, v) \<and> (v = CHR ''0'' \<or> v = CHR ''1'') \<longrightarrow>
        ((\<exists>r. clientRequestHandler E (line # rest) fd c = Inr r \<and> exit_by r = Not_implemented) \<longleftrightarrow>
           m \<noteq> ''GET'') \<and>
        (m \<noteq> ''GET'' \<longrightarrow>
           clientRequestHandler E (line # rest) fd c =
             Inr \<lparr>exit_by = Not_implemented,
                  client = clienterror fd ''501'' ''Not Implemented''
                             ''Proxy does not implement this method'',
                  cache = c, upstream = None\<rparr> \<and>
           (accepts fd (length not_implemented_page) \<longrightarrow>
              sent (clienterror fd ''501'' ''Not Implemented'' ''Proxy does not implement this method'') =
                sent fd @ not_implemented_page)))"
proof -
  let ?run = "clientRequestHandler E (line # rest) fd c"
  let ?bad = "sscanf_request (c_str line) = None \<or>
         (\<exists>m u v. sscanf_request (c_str line) = Some (m, u, v) \<and> v \<noteq> CHR ''0'' \<and> v \<noteq> CHR ''1'')"
  have bad_run: "?run = Inr \<lparr>exit_by = Bad_request,
               client = clienterror fd ''400'' ''Bad Request'' ''Proxy received a malformed request'',
               cache = c, upstream = None\<rparr>" if ?bad
    using that assms
    by (auto simp: clientRequestHandler_def reject_400_def finish_def)
  have nonget_run: "?run = Inr \<lparr>exit_by = Not_implemented,
                  client = clienterror fd ''501'' ''Not Implemented''
                             ''Proxy does not implement this method'',
                  cache = c, upstream = None\<rparr>"
    if "sscanf_request (c_str line) = Some (m, u, v)" "v = CHR ''0'' \<or> v = CHR ''1''" "m \<noteq> ''GET''"
    for m u v
    using that assms
    by (auto simp: clientRequestHandler_def reject_501_def finish_def)
  have get_run: "exit_by r \<noteq> Bad_request \<and> exit_by r \<noteq> Not_implemented"
    if "sscanf_request (c_str line) = Some (''GET'', u, v)" "v = CHR ''0'' \<or> v = CHR ''1''"
       "?run = Inr r" for u v r
    using handler_past_request_line[OF assms that] .
  have 1: "(\<exists>r. ?run = Inr r \<and> exit_by r = Bad_request) \<longleftrightarrow> ?bad"
  proof
    assume "?bad"
    from bad_run[OF this] show "\<exists>r. ?run = Inr r \<and> exit_by r = Bad_request" by simp
  next
    assume L: "\<exists>r. ?run = Inr r \<and> exit_by r = Bad_request"
    show ?bad
    proof (rule ccontr)
      assume "\<not> ?bad"
      then obtain m u v where s: "sscanf_request (c_str line) = Some (m, u, v)"
        "v = CHR ''0'' \<or> v = CHR ''1''"
        by (cases "sscanf_request (c_str line)") auto
      show False
      proof (cases "m = ''GET''")
        case True
        with s L get_run show False by blast
      next
        case False
        from nonget_run[OF s False] L show False by auto
      qed
    qed
  qed
  have 3: "(\<exists>r. ?run = Inr r \<and> exit_by r = Not_implemented) \<longleftrightarrow> m \<noteq> ''GET''"
    if s: "sscanf_request (c_str line) = Some (m, u, v)" "v = CHR ''0'' \<or> v = CHR ''1''" for m u v
  proof (cases "m = ''GET''")
    case True
    with s get_run show ?thesis by blast
  next
    case False
    from nonget_run[OF s False] False show ?thesis by simp
  qed
  show ?thesis
    using 1 bad_run 3 nonget_run responds_400[of fd] responds_501[of fd] by blast
qed

theorem request_line_rejections_witness:
  "''GARBAGE'' @ CRLF \<noteq> [] \<and> sscanf_request (c_str (''GARBAGE'' @ CRLF)) = None \<and>
   accepts quiet_conn (length bad_request_page) \<and>
   clientRequestHandler (demo_env []) [''GARBAGE'' @ CRLF, CRLF] quiet_conn boot_cache =
     Inr \<lparr>exit_by = Bad_request,
          client = clienterror quiet_conn ''400'' ''Bad Request'' ''Proxy received a malformed request'',
          cache = boot_cache, upstream = None\<rparr> \<and>
   sent (clienterror quiet_conn ''400'' ''Bad Request'' ''Proxy received a malformed request'') =
     bad_request_page \<and>
   ''PUT /x HTTP/1.0'' @ CRLF \<noteq> [] \<and>
   sscanf_request (c_str (''PUT /x HTTP/1.0'' @ CRLF)) = Some (''PUT'', ''/x'', CHR ''0'') \<and>
   accepts quiet_conn (length not_implemented_page) \<and>
   clientRequestHandler (demo_env []) [''PUT /x HTTP/1.0'' @ CRLF, CRLF] quiet_conn boot_cache =
     Inr \<lparr>exit_by = Not_implemented,
          client = clienterror quiet_conn ''501'' ''Not Implemented''
                     ''Proxy does not implement this method'',
          cache = boot_cache, upstream = None\<rparr> \<and>
   sent (clienterror quiet_conn ''501'' ''Not Implemented'' ''Proxy does not implement this method'') =
     not_implemented_page"
proof -
  have g0: "''GARBAGE'' @ CRLF \<noteq> []" by simp
  have g1: "sscanf_request (c_str (''GARBAGE'' @ CRLF)) = None"
    by (simp add: sscanf_request_def c_str_def CRLF_def scan_s_def isspace_def)
  have p0: "''PUT /x HTTP/1.0'' @ CRLF \<noteq> []" by simp
  have p1: "sscanf_request (c_str (''PUT /x HTTP/1.0'' @ CRLF)) = Some (''PUT'', ''/x'', CHR ''0'')"
    by (simp add: sscanf_request_def c_str_def CRLF_def scan_s_def isspace_def)
  have a1: "accepts quiet_conn (length bad_request_page)"
    and a2: "accepts quiet_conn (length not_implemented_page)"
    by (simp_all add: accepts_def quiet_conn_def)
  have s0: "sent quiet_conn = []" by (simp add: quiet_conn_def)
  from request_line_rejections[OF g0, of "demo_env []" "[CRLF]" quiet_conn boot_cache] g1 a1 s0
  have G: "clientRequestHandler (demo_env []) [''GARBAGE'' @ CRLF, CRLF] quiet_conn boot_cache =
     Inr \<lparr>exit_by = Bad_request,
          client = clienterror quiet_conn ''400'' ''Bad Request'' ''Proxy received a malformed request'',
          cache = boot_cache, upstream = None\<rparr>"
    "sent (clienterror quiet_conn ''400'' ''Bad Request'' ''Proxy received a malformed request'') =
     bad_request_page"
    by simp_all
  from request_line_rejections[OF p0, of "demo_env []" "[CRLF]" quiet_conn boot_cache] p1 a2 s0
  have P: "clientRequestHandler (demo_env []) [''PUT /x HTTP/1.0'' @ CRLF, CRLF] quiet_conn boot_cache =
     Inr \<lparr>exit_by = Not_implemented,
          client = clienterror quiet_conn ''501'' ''Not Implemented''
                     ''Proxy does not implement this method'',
          cache = boot_cache, upstream = None\<rparr>"
    "sent (clienterror quiet_conn ''501'' ''Not Implemented'' ''Proxy does not implement this method'') =
     not_implemented_page"
    by simp_all
  from g0 g1 a1 G p0 p1 a2 P show ?thesis by blast
qed

section \<open>The upstream request\<close>

lemma header_loop_result:
  "header_loop client_rio st =
     (if length (other_hdr st @ concat (filter is_other (considered client_rio))) < MAXLINE
      then Inr \<lparr>host_hdr = (if filter is_host (considered client_rio) = [] then host_hdr st
                             else last (filter is_host (considered client_rio))),
                other_hdr = other_hdr st @ concat (filter is_other (considered client_rio))\<rparr>
      else Inl Buffer_overflow)"
  if "length (other_hdr st) < MAXLINE"
  using that
proof (induction client_rio arbitrary: st)
  case Nil
  then show ?case by (simp add: considered_def)
next
  case (Cons line rest)
  show ?case
  proof (cases "line = [] \<or> c_str line = endof_hdr")
    case True
    then show ?thesis using Cons.prems by (auto simp: considered_def)
  next
    case False
    then have cons: "considered (line # rest) = c_str line # considered rest"
      by (simp add: considered_def)
    show ?thesis
    proof (cases "strstr (c_str line) host_key")
      case True
      then have f: "is_host (c_str line)" "\<not> is_other (c_str line)"
        by (simp_all add: is_host_def is_other_def)
      have step: "header_loop (line # rest) st = header_loop rest (st\<lparr>host_hdr := c_str line\<rparr>)"
        using False True by (simp add: Let_def)
      have "length (other_hdr (st\<lparr>host_hdr := c_str line\<rparr>)) < MAXLINE"
        using Cons.prems by simp
      note Cons.IH[OF this]
      then show ?thesis unfolding step cons using f by simp
    next
      case nh: False
      then have nhost: "\<not> is_host (c_str line)" by (simp add: is_host_def)
      show ?thesis
      proof (cases "is_other (c_str line)")
        case True
        have step: "header_loop (line # rest) st =
            (case sprintf_into (other_hdr st @ c_str line) of
               Inl f \<Rightarrow> Inl f
             | Inr cat \<Rightarrow> header_loop rest (st\<lparr>other_hdr := cat\<rparr>))"
          using False nh True by (simp add: Let_def is_other_def)
        show ?thesis
        proof (cases "length (other_hdr st @ c_str line) < MAXLINE")
          case fits: True
          then have "length (other_hdr (st\<lparr>other_hdr := other_hdr st @ c_str line\<rparr>)) < MAXLINE"
            by simp
          note Cons.IH[OF this]
          then show ?thesis unfolding step cons using fits True nhost
            by (simp add: sprintf_into_def)
        next
          case over: False
          then show ?thesis unfolding step cons using True nhost
            by (simp add: sprintf_into_def)
        qed
      next
        case no: False
        have step: "header_loop (line # rest) st = header_loop rest st"
          using False nh no by (auto simp: Let_def is_other_def)
        from Cons.IH[OF Cons.prems] show ?thesis unfolding step cons using no nhost by simp
      qed
    qed
  qed
qed

lemma is_prefix_nonempty: "is_prefix key [] \<Longrightarrow> key = []"
  by (cases key) auto

lemma strstr_nonempty: "strstr b key \<Longrightarrow> key \<noteq> [] \<Longrightarrow> b \<noteq> []"
  by (cases b) auto

lemma last_host_nonempty:
  assumes "filter is_host hs \<noteq> []"
  shows "last (filter is_host hs) \<noteq> []"
proof -
  from assms have "last (filter is_host hs) \<in> set (filter is_host hs)" by (rule last_in_set)
  then have "is_host (last (filter is_host hs))" by simp
  then show ?thesis unfolding is_host_def host_key_def by (auto dest: strstr_nonempty)
qed

lemma upstream_request_characterised:
  "create_server_http_request \<lparr>host_hdr = [], other_hdr = []\<rparr> hostname path port client_rio =
     (if length (spec_upstream hostname path client_rio) < MAXLINE
      then Inr (spec_upstream hostname path client_rio) else Inl Buffer_overflow)"
proof -
  let ?hs = "filter is_host (considered client_rio)"
  let ?os = "concat (filter is_other (considered client_rio))"
  have loop: "header_loop client_rio \<lparr>host_hdr = [], other_hdr = []\<rparr> =
     (if length ?os < MAXLINE
      then Inr \<lparr>host_hdr = (if ?hs = [] then [] else last ?hs), other_hdr = ?os\<rparr>
      else Inl Buffer_overflow)"
    using header_loop_result[of "\<lparr>host_hdr = [], other_hdr = []\<rparr>" client_rio]
    by (simp add: MAXLINE_def)
  show ?thesis
  proof (cases "?hs = []")
    case True
    then show ?thesis
      by (auto simp: create_server_http_request_def loop spec_upstream_def sprintf_into_def)
  next
    case False
    with last_host_nonempty[OF False] show ?thesis
      by (auto simp: create_server_http_request_def loop spec_upstream_def sprintf_into_def)
  qed
qed

lemma strstr_big_header:
  assumes "k \<noteq> CHR ''a''" "k \<noteq> CHR 0x0D" "k \<noteq> CHR 0x0A"
  shows "\<not> strstr (replicate n (CHR ''a'') @ CRLF) (k # ks)"
  using assms by (induction n) (auto simp: CRLF_def)

lemma big_header_facts:
  "c_str big_header = big_header" "big_header \<noteq> []" "big_header \<noteq> endof_hdr"
  "length big_header = 5002"
  "\<not> strstr big_header host_key" "\<not> strstr big_header connection_key"
  "\<not> strstr big_header proxy_connection_key" "\<not> strstr big_header user_agent_key"
proof -
  show "c_str big_header = big_header"
    by (simp add: c_str_def big_header_def CRLF_def takeWhile_append2)
  show "big_header \<noteq> []" by (simp add: big_header_def CRLF_def)
  show "length big_header = 5002" by (simp add: big_header_def CRLF_def)
  then have "length big_header \<noteq> length endof_hdr" by (simp add: endof_hdr_def CRLF_def)
  then show "big_header \<noteq> endof_hdr" by auto
  show "\<not> strstr big_header host_key" unfolding big_header_def host_key_def
    by (rule strstr_big_header) simp_all
  show "\<not> strstr big_header connection_key" unfolding big_header_def connection_key_def
    by (rule strstr_big_header) simp_all
  show "\<not> strstr big_header proxy_connection_key" unfolding big_header_def proxy_connection_key_def
    by (rule strstr_big_header) simp_all
  show "\<not> strstr big_header user_agent_key" unfolding big_header_def user_agent_key_def
    by (rule strstr_big_header) simp_all
qed

text \<open>
  C8 (the code at the failing input). The client sends two header lines of 5002 bytes that
  match none of the four keys, then the empty line. The second \<open>strcat(other_hdr, buf)\<close>
  needs 10004 bytes and a NUL in \<open>other_hdr\<close>, an array of \<open>MAXLINE\<close> = 8192 bytes: the copy
  runs over the end of the array, and the request of the specification is not built.
\<close>

theorem header_copy_overflow:
  "create_server_http_request \<lparr>host_hdr = [], other_hdr = []\<rparr> ''h'' ''/x'' 80
     [big_header, big_header, CRLF] = Inl Buffer_overflow"
proof -
  have "header_loop [big_header, big_header, CRLF] \<lparr>host_hdr = [], other_hdr = []\<rparr> =
          Inl Buffer_overflow"
    using big_header_facts by (simp add: sprintf_into_def MAXLINE_def Let_def)
  moreover have "sprintf_into (requestlint_hdr_format ''/x'') = Inr (requestlint_hdr_format ''/x'')"
    by (simp add: sprintf_into_def requestlint_hdr_format_def CRLF_def MAXLINE_def)
  ultimately show ?thesis by (simp add: create_server_http_request_def)
qed

text \<open>
  The same function reads \<open>host_hdr\<close> and \<open>other_hdr\<close> before it writes them. Whatever the
  stack holds there goes into the request: with the headers of an earlier request left in
  the two arrays, a client that sends no header at all gets them sent to the origin.
  (\<open>upstream_request_characterised\<close> above is the other side: with both arrays empty at
  entry, the function builds the request of the specification whenever that request fits
  \<open>MAXLINE\<close>.)
\<close>

lemma stale_stack_reaches_origin:
  "create_server_http_request
     \<lparr>host_hdr = ''Host: old'' @ CRLF, other_hdr = ''Cookie: old'' @ CRLF\<rparr> ''h'' ''/x'' 80 [CRLF] =
   Inr (''GET /x HTTP/1.0'' @ CRLF @ ''Host: old'' @ CRLF @ conn_hdr @ prox_hdr @ user_hdr @
        ''Cookie: old'' @ CRLF @ CRLF)"
  by (simp add: create_server_http_request_def sprintf_into_def requestlint_hdr_format_def
      CRLF_def c_str_def endof_hdr_def MAXLINE_def conn_hdr_def prox_hdr_def user_hdr_def Let_def)

section \<open>A racing insert\<close>

lemma raced_cache_reached: "cache_uri ''http://h/x'' ''y'' 1 boot_cache = Some raced_cache"
  by (simp add: cache_uri_def boot_cache_def cache_init_def MAX_CACHE_SIZE_def Malloc_block_def
      cache_link_tail_def pstore_def raced_cache_def)

lemma raced_cache_list:
  "cache_list raced_cache
     [(0, \<lparr>entry_uri = ''http://h/x'', entry_body = ''y'', entry_size = 1, pin_count = 0\<rparr>)]"
  by (simp add: cache_list_def raced_cache_def entry_of_def)

text \<open>
  C1 (the code at the failing input). A worker serves \<open>GET http://h/x\<close> on the empty cache:
  the probe misses, the origin answers with one byte, and meanwhile another worker has
  inserted the same URI. The lookup of the insert step finds that entry and the insert is
  skipped, but the handle is not released: the worker returns and the entry is left with
  pin count 1, although no worker holds it.
\<close>

theorem racing_insert_leaves_pin:
  "case clientRequestHandler racing_env demo_request quiet_conn boot_cache of
     Inl f \<Rightarrow> False
   | Inr r \<Rightarrow> exit_by r = Relayed \<and> sent (client r) = ''y'' \<and>
              cache_entries (cache r) =
                Some [(0, \<lparr>entry_uri = ''http://h/x'', entry_body = ''y'', entry_size = 1,
                            pin_count = 1\<rparr>)]"
proof -
  have find: "cache_find ''http://h/x'' boot_cache = Some (None, boot_cache)"
    using cache_find_miss[OF boot_cache_list] by simp
  have "\<forall>buf \<in> set [''y'']. buf \<noteq> []" by simp
  from relay_all_fit[OF this, of relay_start]
  obtain st where st: "relay_loop [''y''] relay_start = Inr st" "unat (sizebuf st) = 1"
    "sent (connfd st) = ''y''"
    by (auto simp: relay_start_def quiet_conn_def)
  from st(2) have sz: "sizebuf st = 1" by (simp add: word_unat_eq_iff)
  have "cache_list raced_cache ([] @ (0, \<lparr>entry_uri = ''http://h/x'', entry_body = ''y'',
          entry_size = 1, pin_count = 0\<rparr>) # [])"
    using raced_cache_list by simp
  from cache_store_hit[OF this, of "''http://h/x''" 1 "\<lambda>c. c" "ResponseObjectbuf st"]
  obtain c' where c': "cache_store (\<lambda>c. c) ''http://h/x'' (ResponseObjectbuf st) 1 raced_cache = Some c'"
    "cache_list c' [(0, \<lparr>entry_uri = ''http://h/x'', entry_body = ''y'', entry_size = 1,
                          pin_count = 1\<rparr>)]"
    by (auto simp: MAX_OBJECT_SIZE_def)
  have "fetch_origin racing_env ''http://h/x''
          (c_str (''GET http://h/x HTTP/1.0'' @ CRLF)) [CRLF] quiet_conn boot_cache =
        finish Relayed (connfd st) c'
          (Some (''GET /x HTTP/1.0'' @ CRLF @ ''Host: h'' @ CRLF @ conn_hdr @ prox_hdr @ user_hdr @ CRLF))"
    using st(1) sz c'(1) demo_upstream
    by (simp add: fetch_origin_def racing_env_def demo_env_def relay_start_def[symmetric])
  then have "clientRequestHandler racing_env demo_request quiet_conn boot_cache =
        finish Relayed (connfd st) c'
          (Some (''GET /x HTTP/1.0'' @ CRLF @ ''Host: h'' @ CRLF @ conn_hdr @ prox_hdr @ user_hdr @ CRLF))"
    using demo_request_line find
    by (simp add: clientRequestHandler_def demo_request_def CRLF_def)
  then show ?thesis
    using st(3) cache_entries_list[OF c'(2)] by (simp add: finish_def)
qed

text \<open>
  C4 (the code at the failing input). Two workers serve \<open>GET http://h/x\<close> on the empty
  cache at the same time, and the origin answers each with the one byte \<open>y\<close>. The lookup
  of this worker's insert step misses; before its \<open>cache_uri\<close> takes the mutex, the other
  worker takes its whole insert step, and its lookup misses too; this worker then inserts
  the URI again, since \<open>cache_uri\<close> does not look for the key. The worker returns and the
  cache holds two entries under the one URI.
\<close>

theorem late_insert_duplicates_uri:
  "case clientRequestHandler late_racing_env demo_request quiet_conn boot_cache of
     Inl f \<Rightarrow> False
   | Inr r \<Rightarrow> exit_by r = Relayed \<and> sent (client r) = ''y'' \<and>
              cache_entries (cache r) =
                Some [(0, \<lparr>entry_uri = ''http://h/x'', entry_body = ''y'', entry_size = 1,
                            pin_count = 0\<rparr>),
                      (1, \<lparr>entry_uri = ''http://h/x'', entry_body = ''y'', entry_size = 1,
                            pin_count = 0\<rparr>)]"
proof -
  have find: "cache_find ''http://h/x'' boot_cache = Some (None, boot_cache)"
    using cache_find_miss[OF boot_cache_list] by simp
  have "\<forall>buf \<in> set [''y'']. buf \<noteq> []" by simp
  from relay_all_fit[OF this, of relay_start]
  obtain st where st: "relay_loop [''y''] relay_start = Inr st" "unat (sizebuf st) = 1"
    "sent (connfd st) = ''y''" "take (unat (sizebuf st)) (ResponseObjectbuf st) = ''y''"
    by (auto simp: relay_start_def quiet_conn_def)
  from st(2) have sz: "sizebuf st = 1" by (simp add: word_unat_eq_iff)
  have lt: "sizebuf st < MAX_OBJECT_SIZE" using sz by (simp add: MAX_OBJECT_SIZE_def)
  have ne: "\<not> MAX_CACHE_SIZE < cache_size raced_cache + sizebuf st"
    using sz by (simp add: raced_cache_def MAX_CACHE_SIZE_def)
  from cache_uri_no_evict[OF raced_cache_list ne, of "''http://h/x''" "ResponseObjectbuf st"] st(4) sz
  obtain c' where c': "cache_uri ''http://h/x'' (ResponseObjectbuf st) (sizebuf st) raced_cache = Some c'"
    "cache_list c'
       [(0, \<lparr>entry_uri = ''http://h/x'', entry_body = ''y'', entry_size = 1, pin_count = 0\<rparr>),
        (1, \<lparr>entry_uri = ''http://h/x'', entry_body = ''y'', entry_size = 1, pin_count = 0\<rparr>)]"
    by (auto simp: raced_cache_def)
  have "cache_store (\<lambda>c. c) ''http://h/x'' ''y'' 1 boot_cache = Some raced_cache"
    using cache_store_miss[OF boot_cache_list, of "''http://h/x''" 1 "\<lambda>c. c" "''y''"]
      raced_cache_reached
    by (simp add: MAX_OBJECT_SIZE_def)
  then have other: "other_insert boot_cache = raced_cache"
    by (simp add: other_insert_def)
  have store: "cache_store other_insert ''http://h/x'' (ResponseObjectbuf st) (sizebuf st)
                 boot_cache = Some c'"
    using cache_store_miss[OF boot_cache_list _ lt, of "''http://h/x''" other_insert
        "ResponseObjectbuf st"] c'(1) other
    by simp
  have "fetch_origin late_racing_env ''http://h/x''
          (c_str (''GET http://h/x HTTP/1.0'' @ CRLF)) [CRLF] quiet_conn boot_cache =
        finish Relayed (connfd st) c'
          (Some (''GET /x HTTP/1.0'' @ CRLF @ ''Host: h'' @ CRLF @ conn_hdr @ prox_hdr @ user_hdr @ CRLF))"
    using st(1) store demo_upstream
    by (simp add: fetch_origin_def late_racing_env_def demo_env_def relay_start_def[symmetric])
  then have "clientRequestHandler late_racing_env demo_request quiet_conn boot_cache =
        finish Relayed (connfd st) c'
          (Some (''GET /x HTTP/1.0'' @ CRLF @ ''Host: h'' @ CRLF @ conn_hdr @ prox_hdr @ user_hdr @ CRLF))"
    using demo_request_line find
    by (simp add: clientRequestHandler_def demo_request_def CRLF_def)
  then show ?thesis
    using st(3) cache_entries_list[OF c'(2)] by (simp add: finish_def)
qed

section \<open>The data invariants under lookup and release\<close>

text \<open>
  A lookup and a release keep the cache well formed and keep \<open>cache_size\<close> equal to the
  sum of the sizes of the entries; a lookup changes neither the blocks nor what they hold,
  and it misses exactly when the key is absent.
\<close>

lemma total_bytes_promote:
  "total_bytes (pre @ post @ [(a, e\<lparr>pin_count := n\<rparr>)]) = total_bytes (pre @ (a, e) # post)"
  by simp

lemma cache_find_keeps_invariant:
  assumes "cache_list c es" "unat (cache_size c) = total_bytes es"
  shows "\<exists>p c' es'. cache_find url c = Some (p, c') \<and> cache_list c' es' \<and>
           unat (cache_size c') = total_bytes es' \<and> contents es' = contents es \<and>
           (p = None \<longleftrightarrow> url \<notin> set (keys es))"
proof (cases "url \<in> set (keys es)")
  case False
  with cache_find_miss[OF assms(1) False] assms show ?thesis by auto
next
  case True
  from keys_first_split[OF this] obtain pre a e post where
    es: "es = pre @ (a, e) # post" "url \<notin> set (keys pre)" "entry_uri e = url" by blast
  from cache_find_hit[OF assms(1)[unfolded es(1)] es(2,3)]
  obtain c' where c': "cache_find url c = Some (Some a, c')"
    "cache_list c' (pre @ post @ [(a, e\<lparr>pin_count := pin_count e + 1\<rparr>)])"
    "cache_size c' = cache_size c" by blast
  have "contents (pre @ post @ [(a, e\<lparr>pin_count := pin_count e + 1\<rparr>)]) = contents es"
    using es(1) by (auto simp: contents_def)
  with c' assms(2) es(1) True show ?thesis by (auto simp del: total_bytes_simps(3) simp: total_bytes_promote)
qed

lemma release_keeps_invariant:
  assumes "cache_list c (pre @ (a, e) # post)" "unat (cache_size c) = total_bytes (pre @ (a, e) # post)"
  shows "\<exists>c'. release_block (Some a) c = Some c' \<and>
           cache_list c' (pre @ (a, e\<lparr>pin_count := pin_count e - 1\<rparr>) # post) \<and>
           unat (cache_size c') = total_bytes (pre @ (a, e\<lparr>pin_count := pin_count e - 1\<rparr>) # post)"
  using release_block_list[OF assms(1)] assms(2) by auto

end
